theory Spec2Isabelle
  imports Complex_Main "HOL-Library.Word" "HOL-Library.Char_ord" "HOL-Library.List_Lexorder"
    "HOL-Library.Multiset"
begin

unbundle bit_operations_syntax

section \<open>Common types\<close>

text \<open>
  \<open>size_t\<close> is a 64-bit unsigned integer. The clustering template is followed at the
  value type \<open>T = int32_t\<close>, a 32-bit word read in two's complement (\<open>sint\<close>) wherever
  the source compares values; \<open>_cluster\<close> and the functions it is built from do not look
  at the values and are kept generic in \<open>T\<close>, and \<open>get_radix\<close>, which the source
  overloads, is followed for \<open>int32_t\<close> and for \<open>std::string\<close>.

  Every way the C++ code can stop without returning is a value of \<open>error\<close>: a failed
  \<open>DebugAssert\<close> or a call of \<open>Fail\<close>, an allocation that cannot be satisfied, and the
  three kinds of undefined behaviour the code can reach (a subscript past the end of a
  vector, the dereference of a null pointer, the dereference of an end iterator).
  The header that defines \<open>DebugAssert\<close> and \<open>Fail\<close> is not among the sources: \<open>Fail\<close>
  ends the call with its message, and \<open>DebugAssert\<close> does so when its condition is
  false and the build is a debug build; every function that asserts takes the kind of
  build as the parameter \<open>debug\<close>.
\<close>

type_synonym size_t = "64 word"
type_synonym uint32_t = "32 word"
type_synonym int32_t = "32 word"

datatype error =
    AssertionFailed string
  | LogicError string
  | LengthError
  | UB_OutOfBounds
  | UB_NullDereference
  | UB_EndIteratorDereference

section \<open>Single-precision conversions used by the sampling code\<close>

text \<open>
  \<open>_pick_sample_values\<close> computes a vector subscript in \<open>float\<close>. The roundings
  involved are modelled exactly (IEEE 754 binary32, round to nearest, ties to even;
  the operands are far inside the exponent range, so there is neither overflow nor
  underflow):
  \<^item> \<open>f32_of_nat n\<close> is the value of \<open>static_cast<float>(n)\<close> for an unsigned integer
    \<open>n\<close>; it is again a natural number;
  \<^item> \<open>f32_div a b\<close> is the \<open>float\<close> quotient of two floats whose values are the natural
    numbers \<open>a\<close> and \<open>b > 0\<close>, given as a pair \<open>(m, e)\<close> that stands for \<open>m * 2 ^ e\<close>:
    the exact quotient is scaled by the power of two that brings it into
    \<open>[2 ^ 23, 2 ^ 24)\<close> and rounded to an integer there;
  \<^item> \<open>f32_to_size_t\<close> is \<open>static_cast<size_t>\<close> of such a float, which truncates.
\<close>

fun bit_length :: "nat \<Rightarrow> nat" where
  "bit_length n = (if n = 0 then 0 else Suc (bit_length (n div 2)))"

declare bit_length.simps [simp del]

definition round_half_even :: "nat \<Rightarrow> nat \<Rightarrow> nat" where
  \<comment> \<open>\<open>num / den\<close> rounded to the nearest natural number, ties to the even one\<close>
  "round_half_even num den =
     (let q = num div den; r = num mod den
      in if 2 * r < den then q
         else if den < 2 * r then q + 1
         else if even q then q else q + 1)"

definition f32_of_nat :: "nat \<Rightarrow> nat" where
  "f32_of_nat n =
     (if bit_length n \<le> 24 then n
      else let e = bit_length n - 24 in round_half_even n (2 ^ e) * 2 ^ e)"

definition f32_div :: "nat \<Rightarrow> nat \<Rightarrow> nat \<times> int" where
  "f32_div a b =
     (if a = 0 \<or> b = 0 then (0, 0)
      else let e0 = int (bit_length a) - int (bit_length b) - 24;
               e = (if (if 0 \<le> e0 then a div (b * 2 ^ nat e0) else (a * 2 ^ nat (- e0)) div b)
                       < 2 ^ 24
                    then e0 else e0 + 1)
           in if 0 \<le> e then (round_half_even a (b * 2 ^ nat e), e)
              else (round_half_even (a * 2 ^ nat (- e)) b, e))"

definition f32_to_size_t :: "nat \<times> int \<Rightarrow> nat" where
  "f32_to_size_t f = (case f of (m, e) \<Rightarrow> if 0 \<le> e then m * 2 ^ nat e else m div 2 ^ nat (- e))"

section \<open>Radix cluster sort (radix\_cluster\_sort.hpp)\<close>

subsection \<open>Materialized columns\<close>

record 't materialized_value =
  value_of :: 't
  row_id :: "nat \<times> nat"

type_synonym 't materialized_column = "'t materialized_value list"
type_synonym 't materialized_column_list = "'t materialized_column list"

text \<open>A source table, reduced to the join column: its chunks, each a vector of values.\<close>

type_synonym table = "int32_t list list"

definition row_count :: "table \<Rightarrow> nat" where
  "row_count t = sum_list (map length t)"

text \<open>
  Modelled from the spec: \<open>ColumnMaterializer::materialize\<close> (column\_materializer.hpp is
  not among the sources). Section 4.1: the output has one chunk per source chunk, each
  holding one record \<open>(value, row-id)\<close> per source row, the row-id being the pair (chunk
  index, offset within chunk); with \<open>sort_chunks\<close> set the records of a chunk are ordered by
  value ascending, otherwise they keep the source order.
\<close>

definition materialize_chunk :: "bool \<Rightarrow> nat \<Rightarrow> int32_t list \<Rightarrow> int32_t materialized_column" where
  "materialize_chunk sort_chunks chunk_id chunk =
     (let records = map (\<lambda>(offset, v). \<lparr>value_of = v, row_id = (chunk_id, offset)\<rparr>)
                        (enumerate 0 chunk)
      in if sort_chunks then sort_key (\<lambda>r. sint (value_of r)) records else records)"

definition materialize :: "bool \<Rightarrow> table \<Rightarrow> int32_t materialized_column_list" where
  "materialize sort_chunks t =
     map (\<lambda>(chunk_id, chunk). materialize_chunk sort_chunks chunk_id chunk) (enumerate 0 t)"

subsection \<open>get\_radix, \_materialized\_table\_size, \_concatenate\_chunks\<close>

definition get_radix :: "int32_t \<Rightarrow> uint32_t \<Rightarrow> uint32_t" where
  \<comment> \<open>the overload for arithmetic types (lines 70 to 74), at \<open>int32_t\<close>:
      \<open>static_cast<uint32_t>(value) & radix_bitmask\<close>; the cast keeps the 32 bits\<close>
  "get_radix v radix_bitmask = v AND radix_bitmask"

text \<open>
  The overload for \<open>std::string\<close> (lines 76 to 82) reads the four bytes at
  \<open>value.c_str()\<close> as one \<open>uint32_t\<close>, whatever the length of the string. The array
  \<open>c_str()\<close> points to holds the characters and the terminating zero, \<open>size() + 1\<close> bytes;
  for a string of fewer than three characters the read goes past its end, which is
  undefined behaviour (what the bytes behind the terminator hold is not determined by
  the value). Where the four bytes are there they are taken in little-endian order.
\<close>

fun load_little_endian :: "8 word list \<Rightarrow> uint32_t" where
  "load_little_endian [] = 0"
| "load_little_endian (b # bs) = ucast b OR push_bit 8 (load_little_endian bs)"

definition c_str :: "string \<Rightarrow> 8 word list" where
  "c_str v = map of_char v @ [0]"

definition get_radix_string :: "string \<Rightarrow> uint32_t \<Rightarrow> error + uint32_t" where
  "get_radix_string v radix_bitmask =
     (if length (c_str v) < 4 then Inl UB_OutOfBounds
      else Inr (load_little_endian (take 4 (c_str v)) AND radix_bitmask))"

definition materialized_table_size :: "'t materialized_column_list \<Rightarrow> nat" where
  "materialized_table_size t = sum_list (map length t)"

definition concatenate_chunks :: "'t materialized_column_list \<Rightarrow> 't materialized_column_list" where
  "concatenate_chunks input_chunks = [concat input_chunks]"

subsection \<open>\_cluster\<close>

text \<open>
  \<open>_cluster\<close> starts one job per input chunk; a job walks its chunk in order and appends
  each entry to the cluster the clusterer names, under that cluster's mutex. The jobs
  run concurrently, so the order in which their appends interleave is not determined by
  the program. The model takes the interleaving as a parameter: a schedule is a list of
  job numbers, each naming the job that performs its next append; when the schedule is
  used up the jobs still holding entries finish one after the other
  (\<open>wait_for_tasks\<close> returns only when all jobs are done). Every interleaving is the
  run of some schedule.

  A cluster id outside the output table is a subscript past the end of the vector.
\<close>

type_synonym 't clusterer = "'t \<Rightarrow> error + nat"

definition push_back_cluster ::
  "'t clusterer \<Rightarrow> 't materialized_value \<Rightarrow> 't materialized_column_list \<Rightarrow> error + 't materialized_column_list" where
  "push_back_cluster f entry output_table =
     (case f (value_of entry) of
        Inl e \<Rightarrow> Inl e
      | Inr cluster_id \<Rightarrow>
          if cluster_id < length output_table
          then Inr (output_table[cluster_id := output_table ! cluster_id @ [entry]])
          else Inl UB_OutOfBounds)"

fun run_job ::
  "'t clusterer \<Rightarrow> 't materialized_column \<Rightarrow> 't materialized_column_list \<Rightarrow> error + 't materialized_column_list" where
  "run_job f [] output_table = Inr output_table"
| "run_job f (entry # entries) output_table =
     (case push_back_cluster f entry output_table of
        Inl e \<Rightarrow> Inl e
      | Inr output_table' \<Rightarrow> run_job f entries output_table')"

fun finish_jobs ::
  "'t clusterer \<Rightarrow> 't materialized_column list \<Rightarrow> 't materialized_column_list \<Rightarrow> error + 't materialized_column_list" where
  "finish_jobs f [] output_table = Inr output_table"
| "finish_jobs f (job # jobs) output_table =
     (case run_job f job output_table of
        Inl e \<Rightarrow> Inl e
      | Inr output_table' \<Rightarrow> finish_jobs f jobs output_table')"

fun run_jobs ::
  "'t clusterer \<Rightarrow> nat list \<Rightarrow> 't materialized_column list \<Rightarrow> 't materialized_column_list
   \<Rightarrow> error + 't materialized_column_list" where
  "run_jobs f [] jobs output_table = finish_jobs f jobs output_table"
| "run_jobs f (j # schedule) jobs output_table =
     (if j < length jobs then
        (case jobs ! j of
           [] \<Rightarrow> run_jobs f schedule jobs output_table
         | entry # entries \<Rightarrow>
             (case push_back_cluster f entry output_table of
                Inl e \<Rightarrow> Inl e
              | Inr output_table' \<Rightarrow> run_jobs f schedule (jobs[j := entries]) output_table'))
      else run_jobs f schedule jobs output_table)"

definition cluster ::
  "size_t \<Rightarrow> nat list \<Rightarrow> 't materialized_column_list \<Rightarrow> 't clusterer \<Rightarrow> error + 't materialized_column_list" where
  "cluster cluster_count schedule input_chunks f =
     run_jobs f schedule input_chunks (replicate (unat cluster_count) [])"

subsection \<open>\_radix\_cluster\<close>

definition radix_clusterer :: "size_t \<Rightarrow> int32_t clusterer" where
  \<comment> \<open>the lambda of \<open>_radix_cluster\<close>: \<open>radix_bitmask\<close> is a \<open>size_t\<close>, narrowed to
      \<open>uint32_t\<close> when passed to \<open>get_radix\<close>; the \<open>uint32_t\<close> result widens to \<open>size_t\<close>\<close>
  "radix_clusterer cluster_count v =
     (let radix_bitmask = cluster_count - 1
      in Inr (unat (get_radix v (ucast radix_bitmask))))"

definition radix_cluster ::
  "size_t \<Rightarrow> nat list \<Rightarrow> int32_t materialized_column_list \<Rightarrow> error + int32_t materialized_column_list" where
  "radix_cluster cluster_count schedule input_chunks =
     cluster cluster_count schedule input_chunks (radix_clusterer cluster_count)"

text \<open>The same lambda and the same function at \<open>T = std::string\<close>.\<close>

definition radix_clusterer_string :: "size_t \<Rightarrow> string clusterer" where
  "radix_clusterer_string cluster_count v =
     (let radix_bitmask = cluster_count - 1
      in case get_radix_string v (ucast radix_bitmask) of
           Inl e \<Rightarrow> Inl e
         | Inr radix \<Rightarrow> Inr (unat radix))"

definition radix_cluster_string ::
  "size_t \<Rightarrow> nat list \<Rightarrow> string materialized_column_list \<Rightarrow> error + string materialized_column_list" where
  "radix_cluster_string cluster_count schedule input_chunks =
     cluster cluster_count schedule input_chunks (radix_clusterer_string cluster_count)"


subsection \<open>\_pick\_sample\_values\<close>

text \<open>
  A \<open>std::map<T, size_t>\<close> is kept as the list of its (key, count) pairs in ascending key
  order, the order in which the map is iterated. \<open>increment v m\<close> is \<open>++m[v]\<close>: a
  missing key is inserted at its place with count 0 and then incremented.
\<close>

type_synonym histogram = "(int32_t \<times> nat) list"

fun increment :: "int32_t \<Rightarrow> histogram \<Rightarrow> histogram" where
  "increment v [] = [(v, 1)]"
| "increment v ((k, c) # m) =
     (if v = k then (k, c + 1) # m
      else if sint v < sint k then (v, 1) # (k, c) # m
      else (k, c) # increment v m)"

definition sample_index :: "size_t \<Rightarrow> nat \<Rightarrow> nat \<Rightarrow> nat" where
  \<comment> \<open>\<open>pos = size * (cluster_id + 1) / static_cast<float>(_cluster_count)\<close>: the product
      is a \<open>size_t\<close>, converted to \<open>float\<close> for the division;
      \<open>index = static_cast<size_t>(pos)\<close> truncates\<close>
  "sample_index cluster_count chunk_size cluster_id =
     f32_to_size_t (f32_div (f32_of_nat ((chunk_size * (cluster_id + 1)) mod 2 ^ 64))
                            (f32_of_nat (unat cluster_count)))"

fun pick_chunk_samples ::
  "size_t \<Rightarrow> int32_t materialized_column \<Rightarrow> nat list \<Rightarrow> histogram list \<Rightarrow> error + histogram list" where
  "pick_chunk_samples cluster_count chunk_values [] sample_values = Inr sample_values"
| "pick_chunk_samples cluster_count chunk_values (cluster_id # cluster_ids) sample_values =
     (let index = sample_index cluster_count (length chunk_values) cluster_id
      in if index < length chunk_values \<and> cluster_id < length sample_values
         then pick_chunk_samples cluster_count chunk_values cluster_ids
                (sample_values[cluster_id :=
                   increment (value_of (chunk_values ! index)) (sample_values ! cluster_id)])
         else Inl UB_OutOfBounds)"

fun pick_sample_values ::
  "size_t \<Rightarrow> histogram list \<Rightarrow> int32_t materialized_column_list \<Rightarrow> error + histogram list" where
  "pick_sample_values cluster_count sample_values [] = Inr sample_values"
| "pick_sample_values cluster_count sample_values (chunk_values # chunks) =
     (case pick_chunk_samples cluster_count chunk_values [0 ..< unat (cluster_count - 1)]
             sample_values of
        Inl e \<Rightarrow> Inl e
      | Inr sample_values' \<Rightarrow> pick_sample_values cluster_count sample_values' chunks)"

subsection \<open>\_range\_cluster\<close>

text \<open>
  \<open>std::max_element\<close> with the comparator \<open>a.second < b.second\<close> returns the first
  element no later element exceeds in count; on an empty range it returns the end
  iterator, which the source dereferences.
\<close>

fun max_element :: "histogram \<Rightarrow> (int32_t \<times> nat) option" where
  "max_element [] = None"
| "max_element (x # xs) = Some (foldl (\<lambda>largest y. if snd largest < snd y then y else largest) x xs)"

fun pick_split_values :: "histogram list \<Rightarrow> error + int32_t list" where
  \<comment> \<open>the loop of lines 210 to 218: \<open>split_values[cluster_id] = max_element(...)->second\<close>;
      \<open>second\<close>, a \<open>size_t\<close>, is narrowed to \<open>T\<close>\<close>
  "pick_split_values [] = Inr []"
| "pick_split_values (h # hs) =
     (case max_element h of
        None \<Rightarrow> Inl UB_EndIteratorDereference
      | Some largest \<Rightarrow>
          (case pick_split_values hs of
             Inl e \<Rightarrow> Inl e
           | Inr split_values \<Rightarrow> Inr (of_nat (snd largest) # split_values)))"

definition sample_histograms ::
  "size_t \<Rightarrow> int32_t materialized_column_list \<Rightarrow> int32_t materialized_column_list \<Rightarrow> error + histogram list" where
  \<comment> \<open>lines 200 to 203 of \<open>_range_cluster\<close>; a vector of \<open>2 ^ 64 - 1\<close> maps, asked for
      when \<open>_cluster_count\<close> is 0, cannot be allocated\<close>
  "sample_histograms cluster_count input_left input_right =
     (if cluster_count = 0 then Inl LengthError
      else case pick_sample_values cluster_count (replicate (unat (cluster_count - 1)) []) input_left of
        Inl e \<Rightarrow> Inl e
      | Inr sample_values \<Rightarrow> pick_sample_values cluster_count sample_values input_right)"

definition split_values_of ::
  "size_t \<Rightarrow> int32_t materialized_column_list \<Rightarrow> int32_t materialized_column_list \<Rightarrow> error + int32_t list" where
  \<comment> \<open>lines 200 to 218 of \<open>_range_cluster\<close>\<close>
  "split_values_of cluster_count input_left input_right =
     (case sample_histograms cluster_count input_left input_right of
        Inl e \<Rightarrow> Inl e
      | Inr sample_values \<Rightarrow> pick_split_values sample_values)"

function range_clusterer_loop :: "size_t \<Rightarrow> int32_t list \<Rightarrow> int32_t \<Rightarrow> nat \<Rightarrow> error + nat" where
  "range_clusterer_loop cluster_count split_values v cluster_id =
     (if cluster_id < unat (cluster_count - 1) then
        (if cluster_id < length split_values then
           (if sint v \<le> sint (split_values ! cluster_id) then Inr cluster_id
            else range_clusterer_loop cluster_count split_values v (Suc cluster_id))
         else Inl UB_OutOfBounds)
      else Inr (unat (cluster_count - 1)))"
  by pat_completeness auto
termination
  by (relation "measure (\<lambda>(cluster_count, split_values, v, cluster_id).
                           unat (cluster_count - 1) - cluster_id)") auto

declare range_clusterer_loop.simps [simp del]

definition range_clusterer :: "size_t \<Rightarrow> int32_t list \<Rightarrow> int32_t clusterer" where
  "range_clusterer cluster_count split_values v =
     range_clusterer_loop cluster_count split_values v 0"

definition range_cluster ::
  "size_t \<Rightarrow> nat list \<Rightarrow> nat list \<Rightarrow> int32_t materialized_column_list \<Rightarrow> int32_t materialized_column_list
   \<Rightarrow> error + int32_t materialized_column_list \<times> int32_t materialized_column_list" where
  "range_cluster cluster_count schedule_left schedule_right input_left input_right =
     (case split_values_of cluster_count input_left input_right of
        Inl e \<Rightarrow> Inl e
      | Inr split_values \<Rightarrow>
          (case cluster cluster_count schedule_left input_left
                  (range_clusterer cluster_count split_values) of
             Inl e \<Rightarrow> Inl e
           | Inr output_left \<Rightarrow>
               (case cluster cluster_count schedule_right input_right
                       (range_clusterer cluster_count split_values) of
                  Inl e \<Rightarrow> Inl e
                | Inr output_right \<Rightarrow> Inr (output_left, output_right))))"

subsection \<open>\_sort\_clusters and execute\<close>

text \<open>
  \<open>std::sort\<close> orders a cluster by value and leaves the order of equal values open;
  \<open>sort_key\<close> is the outcome that keeps them in their order of arrival.
\<close>

definition sort_clusters :: "int32_t materialized_column_list \<Rightarrow> int32_t materialized_column_list" where
  "sort_clusters clusters = map (sort_key (\<lambda>r. sint (value_of r))) clusters"

record radix_cluster_sort =
  input_table_left :: table
  input_table_right :: table
  equi_case :: bool
  cluster_count_of :: size_t

definition RadixClusterSort :: "bool \<Rightarrow> table \<Rightarrow> table \<Rightarrow> bool \<Rightarrow> size_t \<Rightarrow> error + radix_cluster_sort" where
  \<comment> \<open>the constructor; the two tables are objects, never null pointers\<close>
  "RadixClusterSort debug left right equi cluster_count =
     (if debug \<and> \<not> 0 < cluster_count
      then Inl (AssertionFailed ''cluster_count must be > 0'')
      else if debug \<and> cluster_count AND (cluster_count - 1) \<noteq> 0
      then Inl (AssertionFailed ''cluster_count must be a power of two, i.e. 1, 2, 4, 8...'')
      else Inr \<lparr>input_table_left = left, input_table_right = right, equi_case = equi,
                cluster_count_of = cluster_count\<rparr>)"

definition execute ::
  "bool \<Rightarrow> nat list \<Rightarrow> nat list \<Rightarrow> radix_cluster_sort
   \<Rightarrow> error + int32_t materialized_column_list \<times> int32_t materialized_column_list" where
  "execute debug schedule_left schedule_right this =
     (let chunks_left = materialize (\<not> equi_case this) (input_table_left this);
          chunks_right = materialize (\<not> equi_case this) (input_table_right this);
          clustered =
            (if cluster_count_of this = 1
             then Inr (concatenate_chunks chunks_left, concatenate_chunks chunks_right)
             else if equi_case this
             then (case radix_cluster (cluster_count_of this) schedule_left chunks_left of
                     Inl e \<Rightarrow> Inl e
                   | Inr output_left \<Rightarrow>
                       (case radix_cluster (cluster_count_of this) schedule_right chunks_right of
                          Inl e \<Rightarrow> Inl e
                        | Inr output_right \<Rightarrow> Inr (output_left, output_right)))
             else range_cluster (cluster_count_of this) schedule_left schedule_right
                    chunks_left chunks_right)
      in case clustered of
           Inl e \<Rightarrow> Inl e
         | Inr (clusters_left, clusters_right) \<Rightarrow>
             (let output_left = sort_clusters clusters_left;
                  output_right = sort_clusters clusters_right
              in if debug \<and> materialized_table_size output_left \<noteq> row_count (input_table_left this)
                 then Inl (AssertionFailed ''left output has wrong size'')
                 else if debug \<and> materialized_table_size output_right \<noteq> row_count (input_table_right this)
                 then Inl (AssertionFailed ''right output has wrong size'')
                 else Inr (output_left, output_right)))"

section \<open>Column statistics (column\_statistics.cpp)\<close>

subsection \<open>Floats of the estimator\<close>

text \<open>
  Selectivities and distinct counts are \<open>float\<close>s. The estimator divides by distinct
  counts and by range widths that can be zero, so the model keeps the values IEEE
  arithmetic produces there: a float is a finite real, an infinity or NaN. The
  operations below give the exact result on finite operands and follow IEEE 754 on
  the others (the sign of zero is not kept: a zero divisor counts as \<open>+0\<close>, which is
  what \<open>x + 1\<close> yields when it is zero). Where the source computes in a \<open>float\<close> or
  \<open>double\<close> column the exact result is then rounded (next subsection); the arithmetic
  on distinct counts (\<open>1 / d\<close>, \<open>(d - 1) / d\<close>, \<open>selectivity * d\<close>) and the quotient of an
  integer by a \<open>float\<close> are left unrounded.
\<close>

datatype float = Finite real | PosInf | NegInf | NaN

fun fdiv :: "float \<Rightarrow> float \<Rightarrow> float" where
  "fdiv (Finite x) (Finite y) =
     (if y \<noteq> 0 then Finite (x / y) else if 0 < x then PosInf else if x < 0 then NegInf else NaN)"
| "fdiv (Finite x) PosInf = Finite 0"
| "fdiv (Finite x) NegInf = Finite 0"
| "fdiv PosInf (Finite y) = (if 0 \<le> y then PosInf else NegInf)"
| "fdiv NegInf (Finite y) = (if 0 \<le> y then NegInf else PosInf)"
| "fdiv _ _ = NaN"

fun fmul :: "float \<Rightarrow> float \<Rightarrow> float" where
  "fmul (Finite x) (Finite y) = Finite (x * y)"
| "fmul (Finite x) PosInf = (if 0 < x then PosInf else if x < 0 then NegInf else NaN)"
| "fmul (Finite x) NegInf = (if 0 < x then NegInf else if x < 0 then PosInf else NaN)"
| "fmul PosInf (Finite y) = (if 0 < y then PosInf else if y < 0 then NegInf else NaN)"
| "fmul NegInf (Finite y) = (if 0 < y then NegInf else if y < 0 then PosInf else NaN)"
| "fmul PosInf PosInf = PosInf"
| "fmul PosInf NegInf = NegInf"
| "fmul NegInf PosInf = NegInf"
| "fmul NegInf NegInf = PosInf"
| "fmul _ _ = NaN"

fun fsub :: "float \<Rightarrow> float \<Rightarrow> float" where
  "fsub (Finite x) (Finite y) = Finite (x - y)"
| "fsub (Finite x) PosInf = NegInf"
| "fsub (Finite x) NegInf = PosInf"
| "fsub PosInf (Finite y) = PosInf"
| "fsub PosInf NegInf = PosInf"
| "fsub NegInf (Finite y) = NegInf"
| "fsub NegInf PosInf = NegInf"
| "fsub _ _ = NaN"

fun fadd :: "float \<Rightarrow> float \<Rightarrow> float" where
  "fadd (Finite x) (Finite y) = Finite (x + y)"
| "fadd (Finite x) PosInf = PosInf"
| "fadd (Finite x) NegInf = NegInf"
| "fadd PosInf (Finite y) = PosInf"
| "fadd PosInf PosInf = PosInf"
| "fadd NegInf (Finite y) = NegInf"
| "fadd NegInf NegInf = NegInf"
| "fadd _ _ = NaN"

fun fless :: "float \<Rightarrow> float \<Rightarrow> bool" where
  "fless (Finite x) (Finite y) = (x < y)"
| "fless (Finite x) PosInf = True"
| "fless NegInf (Finite y) = True"
| "fless NegInf PosInf = True"
| "fless _ _ = False"

fun fle :: "float \<Rightarrow> float \<Rightarrow> bool" where
  "fle (Finite x) (Finite y) = (x \<le> y)"
| "fle NaN _ = False"
| "fle _ NaN = False"
| "fle NegInf _ = True"
| "fle _ PosInf = True"
| "fle _ _ = False"

definition fmin :: "float \<Rightarrow> float \<Rightarrow> float" where
  \<comment> \<open>\<open>std::min(a, b)\<close> is \<open>(b < a) ? b : a\<close>\<close>
  "fmin a b = (if fless b a then b else a)"

subsection \<open>Rounding to binary32 and binary64\<close>

text \<open>
  The arithmetic of \<open>float\<close> and \<open>double\<close> columns rounds, and overflows to an infinity.
  \<open>nearest p emin x\<close> is the number nearest to \<open>x\<close> among those with \<open>p\<close> significant bits
  and exponents from \<open>emin\<close> upwards (IEEE 754 round to nearest, ties to even, with
  gradual underflow): \<open>exponent_of x\<close> is the \<open>k\<close> with \<open>2 ^ k \<le> |x| < 2 ^ (k + 1)\<close>, and
  \<open>x\<close> is rounded to a multiple of \<open>2 ^ e\<close> for \<open>e = max (k - (p - 1)) emin\<close>. \<open>fround\<close>
  replaces a result of magnitude \<open>2 ^ emax\<close> or more by the infinity of its sign.
  binary32 has \<open>p = 24\<close>, \<open>emin = -149\<close>, \<open>emax = 128\<close>; binary64 has \<open>p = 53\<close>,
  \<open>emin = -1074\<close>, \<open>emax = 1024\<close>. Every operation of the source on \<open>float\<close> or \<open>double\<close>
  operands is taken to round to the format of its type (no wider intermediate
  results).
\<close>

definition exponent_of :: "real \<Rightarrow> int" where
  "exponent_of x =
     (if 1 \<le> \<bar>x\<bar> then int (bit_length (nat \<lfloor>\<bar>x\<bar>\<rfloor>)) - 1
      else - int (bit_length (nat (\<lceil>1 / \<bar>x\<bar>\<rceil> - 1))))"

definition round_to_even :: "real \<Rightarrow> int" where
  "round_to_even t =
     (let f = \<lfloor>t\<rfloor>; r = t - of_int f
      in if r < 1 / 2 then f else if 1 / 2 < r then f + 1 else if even f then f else f + 1)"

definition nearest :: "nat \<Rightarrow> int \<Rightarrow> real \<Rightarrow> real" where
  "nearest p emin x =
     (if x = 0 then 0
      else let e = max (exponent_of x - (int p - 1)) emin
           in sgn x * (of_int (round_to_even (\<bar>x\<bar> / 2 powi e)) * 2 powi e))"

definition fround :: "nat \<Rightarrow> int \<Rightarrow> int \<Rightarrow> real \<Rightarrow> float" where
  "fround p emin emax x =
     (let y = nearest p emin x
      in if 2 powi emax \<le> \<bar>y\<bar> then (if 0 < y then PosInf else NegInf) else Finite y)"

definition binary32 :: "real \<Rightarrow> float" where
  "binary32 x = fround 24 (- 149) 128 x"

definition binary64 :: "real \<Rightarrow> float" where
  "binary64 x = fround 53 (- 1074) 1024 x"

fun rounded :: "(real \<Rightarrow> float) \<Rightarrow> float \<Rightarrow> float" where
  \<comment> \<open>the rounding of a result that may already be an infinity or NaN\<close>
  "rounded r (Finite x) = r x"
| "rounded r w = w"

subsection \<open>The statistics object\<close>

text \<open>
  Modelled from the spec: \<open>Table\<close>, \<open>TableWrapper\<close> and \<open>Aggregate\<close> (storage/table.hpp,
  operators/table\_wrapper.hpp and operators/aggregate.hpp are not among the sources).
  A table is the list of its columns, each the list of its values. Section 6, aggregate
  contract: an aggregate grouped by one column yields one row per distinct value of
  it; \<open>Min\<close> and \<open>Max\<close> without grouping yield the least and the greatest value in the
  order supplied, in row 0. A column id that is not a column of the table and row 0 of
  an aggregate over no rows are subscripts out of range.
\<close>

type_synonym 'v stored_table = "'v list list"

definition aggregate_distinct :: "'v stored_table \<Rightarrow> nat \<Rightarrow> error + nat" where
  "aggregate_distinct t column_id =
     (if column_id < length t then Inr (length (remdups (t ! column_id))) else Inl UB_OutOfBounds)"

definition aggregate_min_max :: "('v :: linorder) stored_table \<Rightarrow> nat \<Rightarrow> error + 'v \<times> 'v" where
  "aggregate_min_max t column_id =
     (if column_id < length t then
        (case t ! column_id of
           [] \<Rightarrow> Inl UB_OutOfBounds
         | x # xs \<Rightarrow> Inr (fold min xs x, fold max xs x))
      else Inl UB_OutOfBounds)"

text \<open>
  \<open>table_ptr\<close> is what \<open>_table.lock()\<close> returns: the table while it is alive, the null
  pointer (\<open>None\<close>) once it is gone or when the statistics were built from literal
  values. The three optional members are the caches of the lazy statistics.
\<close>

record 'v column_statistics =
  column_id :: nat
  table_ptr :: "'v stored_table option"
  distinct_count_opt :: "float option"
  min_opt :: "'v option"
  max_opt :: "'v option"

definition ColumnStatistics_of_table :: "nat \<Rightarrow> 'v stored_table option \<Rightarrow> 'v column_statistics" where
  \<comment> \<open>the constructor of lines 21 to 23\<close>
  "ColumnStatistics_of_table cid t =
     \<lparr>column_id = cid, table_ptr = t, distinct_count_opt = None, min_opt = None, max_opt = None\<rparr>"

definition ColumnStatistics :: "nat \<Rightarrow> float \<Rightarrow> 'v \<Rightarrow> 'v \<Rightarrow> 'v column_statistics" where
  \<comment> \<open>the constructor of lines 25 to 28\<close>
  "ColumnStatistics cid d mn mx =
     \<lparr>column_id = cid, table_ptr = None, distinct_count_opt = Some d, min_opt = Some mn,
      max_opt = Some mx\<rparr>"

subsection \<open>The lazy accessors\<close>

text \<open>
  The accessors fill the caches, so they take the object and return it updated beside
  their value. \<open>update_distinct_count\<close> and \<open>update_min_max\<close> call
  \<open>table->column_name\<close> on the pointer \<open>lock()\<close> returned without testing it.
\<close>

definition update_distinct_count :: "'v column_statistics \<Rightarrow> error + 'v column_statistics" where
  "update_distinct_count this =
     (case table_ptr this of
        None \<Rightarrow> Inl UB_NullDereference
      | Some t \<Rightarrow>
          (case aggregate_distinct t (column_id this) of
             Inl e \<Rightarrow> Inl e
           | Inr rows \<Rightarrow> Inr (this\<lparr>distinct_count_opt := Some (Finite (real rows))\<rparr>)))"

definition update_min_max :: "('v :: linorder) column_statistics \<Rightarrow> error + 'v column_statistics" where
  "update_min_max this =
     (case table_ptr this of
        None \<Rightarrow> Inl UB_NullDereference
      | Some t \<Rightarrow>
          (case aggregate_min_max t (column_id this) of
             Inl e \<Rightarrow> Inl e
           | Inr (mn, mx) \<Rightarrow> Inr (this\<lparr>min_opt := Some mn, max_opt := Some mx\<rparr>)))"

definition deref :: "'a option \<Rightarrow> 's \<Rightarrow> error + 'a \<times> 's" where
  \<comment> \<open>\<open>return *member\<close>\<close>
  "deref member this = (case member of None \<Rightarrow> Inl UB_NullDereference | Some x \<Rightarrow> Inr (x, this))"

definition distinct_count :: "'v column_statistics \<Rightarrow> error + float \<times> 'v column_statistics" where
  "distinct_count this =
     (case distinct_count_opt this of
        Some d \<Rightarrow> Inr (d, this)
      | None \<Rightarrow>
          (case update_distinct_count this of
             Inl e \<Rightarrow> Inl e
           | Inr this' \<Rightarrow> deref (distinct_count_opt this') this'))"

definition min_of :: "('v :: linorder) column_statistics \<Rightarrow> error + 'v \<times> 'v column_statistics" where
  "min_of this =
     (case min_opt this of
        Some mn \<Rightarrow> Inr (mn, this)
      | None \<Rightarrow>
          (case update_min_max this of
             Inl e \<Rightarrow> Inl e
           | Inr this' \<Rightarrow> deref (min_opt this') this'))"

definition max_of :: "('v :: linorder) column_statistics \<Rightarrow> error + 'v \<times> 'v column_statistics" where
  "max_of this =
     (case max_opt this of
        Some mx \<Rightarrow> Inr (mx, this)
      | None \<Rightarrow>
          (case update_min_max this of
             Inl e \<Rightarrow> Inl e
           | Inr this' \<Rightarrow> deref (max_opt this') this'))"

definition and_then :: "error + 'a \<times> 's \<Rightarrow> ('a \<Rightarrow> 's \<Rightarrow> error + 'b) \<Rightarrow> error + 'b" where
  \<comment> \<open>sequencing: the first failure ends the call\<close>
  "and_then m f = (case m of Inl e \<Rightarrow> Inl e | Inr (x, this) \<Rightarrow> f x this)"

subsection \<open>Column types\<close>

text \<open>
  The template is instantiated for \<open>int32_t\<close>, \<open>int64_t\<close>, \<open>float\<close>, \<open>double\<close> and
  \<open>std::string\<close> (lines 294 to 298). The numeric instantiations share the generic code;
  what differs between them is passed as a dictionary: whether the type is integral,
  its subtraction, \<open>+ 1\<close> and \<open>- 1\<close>, its conversion to \<open>float\<close>, and which statistics a
  \<open>dynamic_pointer_cast\<close> to it accepts. The estimates are all of the form
  \<open>(a - b) / static_cast<float>(hi - lo + 1)\<close> or
  \<open>(a - b + 1) / static_cast<float>(hi - lo + 1)\<close>, stored in a \<open>float\<close>. A dictionary
  \<open>('v, 'w) column_type\<close> has the values of the column in \<open>'v\<close> and their differences in
  \<open>'w\<close>:
  \<^item> \<open>sub\<close> is the subtraction of two values, \<open>plus_one\<close> is \<open>+ 1\<close> on a difference,
    \<open>to_float\<close> is \<open>static_cast<float>\<close> of a difference, and \<open>divide_by_float x f\<close> is the
    \<open>float\<close> that \<open>x / f\<close> leaves in a \<open>float\<close> variable for a difference \<open>x\<close> and a \<open>float\<close>
    \<open>f\<close>;
  \<^item> \<open>minus_one\<close> and \<open>value_plus_one\<close> are \<open>casted_value - 1\<close> and \<open>casted_value + 1\<close>, the
    bounds of the statistics derived on an integral column.

  Integer values and differences are kept as their integer value; arithmetic on
  \<open>int32_t\<close> and \<open>int64_t\<close> wraps around in two's complement, and an integer divided by
  a \<open>float\<close> is converted to \<open>float\<close> first (neither that conversion nor the quotient is
  rounded in the model; an integer is far inside the range of \<open>float\<close>).

  A \<open>float\<close> or \<open>double\<close> column holds finite values, kept as real numbers. Their
  differences are computed in the column type, rounded to binary32 or binary64, and
  are a finite number or an infinity. For a \<open>float\<close> column the cast is the identity
  and the quotient is rounded to binary32. For a \<open>double\<close> column the cast narrows the
  width to binary32, the quotient is computed in \<open>double\<close> (the \<open>float\<close> divisor widens
  without change) and is narrowed to binary32 when it is stored.

  \<open>ScanType\<close> (types.hpp is not among the sources) has the seven operators the code
  names; \<open>OpLike\<close> stands for every other one.
\<close>

datatype scan_type =
    OpEquals | OpNotEquals | OpLessThan | OpLessThanEquals | OpGreaterThan
  | OpGreaterThanEquals | OpBetween | OpLike

datatype abstract_column_statistics =
    Int32Statistics "int column_statistics"
  | Int64Statistics "int column_statistics"
  | FloatStatistics "real column_statistics"
  | DoubleStatistics "real column_statistics"
  | StringStatistics "string column_statistics"

record ('v, 'w) column_type =
  is_integral :: bool
  sub :: "'v \<Rightarrow> 'v \<Rightarrow> 'w"
  plus_one :: "'w \<Rightarrow> 'w"
  to_float :: "'w \<Rightarrow> float"
  divide_by_float :: "'w \<Rightarrow> float \<Rightarrow> float"
  minus_one :: "'v \<Rightarrow> 'v"
  value_plus_one :: "'v \<Rightarrow> 'v"
  dynamic_pointer_cast :: "abstract_column_statistics \<Rightarrow> 'v column_statistics option"

definition wrap :: "nat \<Rightarrow> int \<Rightarrow> int" where
  \<comment> \<open>the value of an integer in \<open>bits\<close>-bit two's complement\<close>
  "wrap bits x = signed_take_bit (bits - 1) x"

definition int32_type :: "(int, int) column_type" where
  "int32_type =
     \<lparr>is_integral = True,
      sub = (\<lambda>a b. wrap 32 (a - b)),
      plus_one = (\<lambda>a. wrap 32 (a + 1)),
      to_float = (\<lambda>a. Finite (real_of_int a)),
      divide_by_float = (\<lambda>a f. fdiv (Finite (real_of_int a)) f),
      minus_one = (\<lambda>a. wrap 32 (a - 1)),
      value_plus_one = (\<lambda>a. wrap 32 (a + 1)),
      dynamic_pointer_cast = (\<lambda>a. case a of Int32Statistics s \<Rightarrow> Some s | _ \<Rightarrow> None)\<rparr>"

definition int64_type :: "(int, int) column_type" where
  "int64_type =
     \<lparr>is_integral = True,
      sub = (\<lambda>a b. wrap 64 (a - b)),
      plus_one = (\<lambda>a. wrap 64 (a + 1)),
      to_float = (\<lambda>a. Finite (real_of_int a)),
      divide_by_float = (\<lambda>a f. fdiv (Finite (real_of_int a)) f),
      minus_one = (\<lambda>a. wrap 64 (a - 1)),
      value_plus_one = (\<lambda>a. wrap 64 (a + 1)),
      dynamic_pointer_cast = (\<lambda>a. case a of Int64Statistics s \<Rightarrow> Some s | _ \<Rightarrow> None)\<rparr>"

definition float_type :: "(real, float) column_type" where
  "float_type =
     \<lparr>is_integral = False,
      sub = (\<lambda>a b. binary32 (a - b)),
      plus_one = (\<lambda>x. rounded binary32 (fadd x (Finite 1))),
      to_float = (\<lambda>x. x),
      divide_by_float = (\<lambda>x f. rounded binary32 (fdiv x f)),
      minus_one = (\<lambda>a. nearest 24 (- 149) (a - 1)),
      value_plus_one = (\<lambda>a. nearest 24 (- 149) (a + 1)),
      dynamic_pointer_cast = (\<lambda>a. case a of FloatStatistics s \<Rightarrow> Some s | _ \<Rightarrow> None)\<rparr>"

definition double_type :: "(real, float) column_type" where
  "double_type =
     \<lparr>is_integral = False,
      sub = (\<lambda>a b. binary64 (a - b)),
      plus_one = (\<lambda>x. rounded binary64 (fadd x (Finite 1))),
      to_float = (\<lambda>x. rounded binary32 x),
      divide_by_float = (\<lambda>x f. rounded binary32 (rounded binary64 (fdiv x f))),
      minus_one = (\<lambda>a. nearest 53 (- 1074) (a - 1)),
      value_plus_one = (\<lambda>a. nearest 53 (- 1074) (a + 1)),
      dynamic_pointer_cast = (\<lambda>a. case a of DoubleStatistics s \<Rightarrow> Some s | _ \<Rightarrow> None)\<rparr>"

subsection \<open>predicate\_selectivity for a constant value\<close>

type_synonym 'v column_statistics_container = "float \<times> 'v column_statistics option"

type_synonym 'v two_column_statistics_container =
  "float \<times> 'v column_statistics option \<times> 'v column_statistics option"

text \<open>
  Each case reads the statistics through the accessors in the order the source evaluates
  them; a second call of an accessor within a case returns what the first call cached
  and is not repeated. \<open>v\<close> is \<open>casted_value\<close>, \<open>v2\<close> the cast of \<open>*value2\<close> where the
  optional holds a value (\<open>type_cast\<close> is not among the sources).
\<close>

definition less_than_equals_case ::
  "('v :: linorder, 'w) column_type \<Rightarrow> scan_type \<Rightarrow> 'v \<Rightarrow> 'v column_statistics
   \<Rightarrow> error + 'v column_statistics_container \<times> 'v column_statistics" where
  \<comment> \<open>lines 155 to 165, reached with \<open>OpLessThanEquals\<close> and, for a type that is not
      integral, with \<open>OpLessThan\<close>\<close>
  "less_than_equals_case ct scan v this =
     and_then (min_of this) (\<lambda>lo this.
       if v < lo \<or> (scan = OpLessThan \<and> v \<le> lo) then Inr ((Finite 0, None), this)
       else and_then (max_of this) (\<lambda>hi this.
         if v \<ge> hi then Inr ((Finite 1, None), this)
         else and_then (distinct_count this) (\<lambda>d this.
           let selectivity = divide_by_float ct (plus_one ct (sub ct v lo))
                                  (to_float ct (plus_one ct (sub ct hi lo)))
           in Inr ((selectivity,
                    Some (ColumnStatistics (column_id this) (fmul selectivity d) lo v)), this))))"

definition greater_than_equals_case ::
  "('v :: linorder, 'w) column_type \<Rightarrow> scan_type \<Rightarrow> 'v \<Rightarrow> 'v column_statistics
   \<Rightarrow> error + 'v column_statistics_container \<times> 'v column_statistics" where
  \<comment> \<open>lines 180 to 190\<close>
  "greater_than_equals_case ct scan v this =
     and_then (max_of this) (\<lambda>hi this.
       if v > hi \<or> (scan = OpGreaterThan \<and> v \<ge> hi) then Inr ((Finite 0, None), this)
       else and_then (min_of this) (\<lambda>lo this.
         if v \<le> lo then Inr ((Finite 1, None), this)
         else and_then (distinct_count this) (\<lambda>d this.
           let selectivity = divide_by_float ct (plus_one ct (sub ct hi v))
                                  (to_float ct (plus_one ct (sub ct hi lo)))
           in Inr ((selectivity,
                    Some (ColumnStatistics (column_id this) (fmul selectivity d) v hi)), this))))"

fun predicate_selectivity ::
  "('v :: linorder, 'w) column_type \<Rightarrow> scan_type \<Rightarrow> 'v \<Rightarrow> 'v option \<Rightarrow> 'v column_statistics
   \<Rightarrow> error + 'v column_statistics_container \<times> 'v column_statistics" where
  "predicate_selectivity ct OpEquals v v2 this =
     and_then (min_of this) (\<lambda>lo this.
       if v < lo then Inr ((Finite 0, None), this)
       else and_then (max_of this) (\<lambda>hi this.
         if v > hi then Inr ((Finite 0, None), this)
         else and_then (distinct_count this) (\<lambda>d this.
           Inr ((fdiv (Finite 1) d, Some (ColumnStatistics (column_id this) (Finite 1) v v)),
                this))))"
| "predicate_selectivity ct OpNotEquals v v2 this =
     and_then (min_of this) (\<lambda>lo this.
       if v < lo then Inr ((Finite 1, None), this)
       else and_then (max_of this) (\<lambda>hi this.
         if v > hi then Inr ((Finite 1, None), this)
         else and_then (distinct_count this) (\<lambda>d this.
           Inr ((fdiv (fsub d (Finite 1)) d,
                 Some (ColumnStatistics (column_id this) (fsub d (Finite 1)) lo hi)), this))))"
| "predicate_selectivity ct OpLessThan v v2 this =
     (if is_integral ct then
        and_then (min_of this) (\<lambda>lo this.
          if v \<le> lo then Inr ((Finite 0, None), this)
          else and_then (max_of this) (\<lambda>hi this.
            and_then (distinct_count this) (\<lambda>d this.
              let selectivity = divide_by_float ct (sub ct v lo)
                                     (to_float ct (plus_one ct (sub ct hi lo)))
              in Inr ((selectivity,
                       Some (ColumnStatistics (column_id this) (fmul selectivity d) lo
                               (minus_one ct v))), this))))
      else less_than_equals_case ct OpLessThan v this)"
| "predicate_selectivity ct OpLessThanEquals v v2 this =
     less_than_equals_case ct OpLessThanEquals v this"
| "predicate_selectivity ct OpGreaterThan v v2 this =
     (if is_integral ct then
        and_then (max_of this) (\<lambda>hi this.
          if v \<ge> hi then Inr ((Finite 0, None), this)
          else and_then (min_of this) (\<lambda>lo this.
            and_then (distinct_count this) (\<lambda>d this.
              let selectivity = divide_by_float ct (sub ct hi v)
                                     (to_float ct (plus_one ct (sub ct hi lo)))
              in Inr ((selectivity,
                       Some (ColumnStatistics (column_id this) (fmul selectivity d)
                               (value_plus_one ct v) hi)), this))))
      else greater_than_equals_case ct OpGreaterThan v this)"
| "predicate_selectivity ct OpGreaterThanEquals v v2 this =
     greater_than_equals_case ct OpGreaterThanEquals v this"
| "predicate_selectivity ct OpBetween v v2 this =
     (case v2 of
        None \<Rightarrow> Inl (LogicError ''operator BETWEEN should get two parameters, second is missing!'')
      | Some w \<Rightarrow>
          if v > w then Inr ((Finite 0, None), this)
          else and_then (max_of this) (\<lambda>hi this.
            if v > hi then Inr ((Finite 0, None), this)
            else and_then (min_of this) (\<lambda>lo this.
              if w < lo then Inr ((Finite 0, None), this)
              else and_then (distinct_count this) (\<lambda>d this.
                let v' = max v lo;
                    w' = min w hi;
                    selectivity = divide_by_float ct (plus_one ct (sub ct w' v'))
                                       (to_float ct (plus_one ct (sub ct hi lo)))
                in Inr ((selectivity,
                         Some (ColumnStatistics (column_id this) (fmul selectivity d) v' w')),
                        this)))))"
| "predicate_selectivity ct OpLike v v2 this = Inr ((Finite 1, None), this)"


subsection \<open>predicate\_selectivity for two columns\<close>

text \<open>
  The assertion of line 234 holds when the cast returned the null pointer. Both objects
  are returned, since the accessors may fill the caches of either; they are two
  objects (a column compared with itself shares one cache, which the model does not
  follow). The operands of \<open>std::max\<close> and \<open>std::min\<close> are evaluated from left to right.
\<close>

definition predicate_selectivity_columns ::
  "bool \<Rightarrow> ('v :: linorder, 'w) column_type \<Rightarrow> scan_type \<Rightarrow> abstract_column_statistics
   \<Rightarrow> 'v column_statistics
   \<Rightarrow> error + 'v two_column_statistics_container \<times> 'v column_statistics \<times> 'v column_statistics" where
  "predicate_selectivity_columns debug ct scan abstract_value_column_statistics this =
     (let value_column_statistics = dynamic_pointer_cast ct abstract_value_column_statistics
      in if debug \<and> \<not> (value_column_statistics = None)
         then Inl (AssertionFailed ''Cannot compare columns of different type'')
         else
           and_then (min_of this) (\<lambda>this_min this.
             case value_column_statistics of
               None \<Rightarrow> Inl UB_NullDereference
             | Some other \<Rightarrow>
                 and_then (min_of other) (\<lambda>value_min other.
                 and_then (max_of this) (\<lambda>this_max this.
                 and_then (max_of other) (\<lambda>value_max other.
                   let common_min = max this_min value_min;
                       common_max = min this_max value_max
                   in if scan = OpEquals then
                        (if common_min > common_max then Inr ((Finite 0, None, None), this, other)
                         else
                           and_then (distinct_count this) (\<lambda>this_distinct this.
                           and_then (distinct_count other) (\<lambda>value_distinct other.
                             let overlapping_ratio_this =
                                   divide_by_float ct (plus_one ct (sub ct common_max common_min))
                                        (to_float ct (plus_one ct (sub ct this_max this_min)));
                                 overlapping_ratio_value =
                                   divide_by_float ct (plus_one ct (sub ct common_max common_min))
                                        (to_float ct (plus_one ct (sub ct value_max value_min)));
                                 overlapping_distinct_count_this =
                                   fmul overlapping_ratio_this this_distinct;
                                 overlapping_distinct_count_value =
                                   fmul overlapping_ratio_value value_distinct;
                                 overlapping_distinct_count =
                                   fmin overlapping_distinct_count_this
                                        overlapping_distinct_count_value;
                                 probability_hit_value = fdiv value_distinct this_distinct
                             in Inr ((fmul overlapping_distinct_count probability_hit_value,
                                      Some (ColumnStatistics (column_id this)
                                              overlapping_distinct_count common_min common_max),
                                      Some (ColumnStatistics (column_id other)
                                              overlapping_distinct_count common_min common_max)),
                                     this, other))))
                      else Inr ((Finite 1, None, None), this, other))))))"


subsection \<open>predicate\_selectivity for a placeholder\<close>


section \<open>Auxiliary predicates for the proofs\<close>

text \<open>
  \<open>well_placed f t\<close>: every record of cluster \<open>c\<close> of \<open>t\<close> is one the clusterer \<open>f\<close>
  sends to \<open>c\<close>. \<open>in_range f n\<close>: \<open>f\<close> returns a cluster id below \<open>n\<close> on every value.
\<close>

definition well_placed :: "'t clusterer \<Rightarrow> 't materialized_column_list \<Rightarrow> bool" where
  "well_placed f output_table \<longleftrightarrow>
     (\<forall>c < length output_table. \<forall>r \<in> set (output_table ! c). f (value_of r) = Inr c)"

definition in_range :: "'t clusterer \<Rightarrow> nat \<Rightarrow> bool" where
  "in_range f n \<longleftrightarrow> (\<forall>v. \<exists>c < n. f v = Inr c)"

text \<open>\<open>clustered\<close> is the part of \<open>execute\<close> before the clusters are sorted (lines 260 to 274).\<close>

definition clustered ::
  "nat list \<Rightarrow> nat list \<Rightarrow> radix_cluster_sort
   \<Rightarrow> error + int32_t materialized_column_list \<times> int32_t materialized_column_list" where
  "clustered schedule_left schedule_right this =
     (let chunks_left = materialize (\<not> equi_case this) (input_table_left this);
          chunks_right = materialize (\<not> equi_case this) (input_table_right this)
      in if cluster_count_of this = 1
             then Inr (concatenate_chunks chunks_left, concatenate_chunks chunks_right)
             else if equi_case this
             then (case radix_cluster (cluster_count_of this) schedule_left chunks_left of
                     Inl e \<Rightarrow> Inl e
                   | Inr output_left \<Rightarrow>
                       (case radix_cluster (cluster_count_of this) schedule_right chunks_right of
                          Inl e \<Rightarrow> Inl e
                        | Inr output_right \<Rightarrow> Inr (output_left, output_right)))
             else range_cluster (cluster_count_of this) schedule_left schedule_right
                    chunks_left chunks_right)"

text \<open>
  \<open>has_statistics this lo hi d\<close>: the accessors \<open>min()\<close>, \<open>max()\<close> and \<open>distinct_count()\<close>
  of \<open>this\<close> return \<open>lo\<close>, \<open>hi\<close> and \<open>d\<close>, from the caches or from the table. An object
  is \<open>consistent\<close> when \<open>_min\<close> and \<open>_max\<close> are cached together, as both constructors
  and \<open>update_min_max\<close> leave them.
\<close>

definition consistent :: "'v column_statistics \<Rightarrow> bool" where
  "consistent this \<longleftrightarrow> (min_opt this = None \<longleftrightarrow> max_opt this = None)"

definition statistics :: "('v :: linorder) column_statistics \<Rightarrow> error + 'v \<times> 'v \<times> float" where
  "statistics this =
     and_then (min_of this) (\<lambda>lo this.
     and_then (max_of this) (\<lambda>hi this.
     and_then (distinct_count this) (\<lambda>d this. Inr (lo, hi, d))))"

definition has_statistics :: "('v :: linorder) column_statistics \<Rightarrow> 'v \<Rightarrow> 'v \<Rightarrow> float \<Rightarrow> bool" where
  "has_statistics this lo hi d \<longleftrightarrow> consistent this \<and> statistics this = Inr (lo, hi, d)"

text \<open>\<open>fits bits x\<close>: \<open>x\<close> is a value of the signed integer type of that many bits.\<close>

definition fits :: "nat \<Rightarrow> int \<Rightarrow> bool" where
  "fits bits x \<longleftrightarrow> - (2 ^ (bits - 1)) \<le> x \<and> x < 2 ^ (bits - 1)"



definition exact :: "('v, 'w) column_type \<Rightarrow> ('v \<Rightarrow> real) \<Rightarrow> 'v \<Rightarrow> 'v \<Rightarrow> bool" where
  "exact ct emb a b \<longleftrightarrow>
     (\<forall>f. divide_by_float ct (sub ct a b) f = fdiv (Finite (emb a - emb b)) f)
     \<and> (\<forall>f. divide_by_float ct (plus_one ct (sub ct a b)) f
              = fdiv (Finite (emb a - emb b + 1)) f)
     \<and> to_float ct (plus_one ct (sub ct a b)) = Finite (emb a - emb b + 1)"



section \<open>Properties of \_cluster\<close>

lemma size_list_update:
  "c < length out \<Longrightarrow>
   materialized_table_size (out[c := out ! c @ [e]]) = Suc (materialized_table_size out)"
  by (simp add: materialized_table_size_def map_update sum_list_update)

lemma push_back_cluster_Inr:
  assumes "push_back_cluster f e out = Inr out'"
  shows "length out' = length out"
    and "materialized_table_size out' = Suc (materialized_table_size out)"
    and "well_placed f out \<Longrightarrow> well_placed f out'"
proof -
  from assms obtain c where c: "f (value_of e) = Inr c" "c < length out"
    and out': "out' = out[c := out ! c @ [e]]"
    by (auto simp: push_back_cluster_def split: sum.splits if_splits)
  show "length out' = length out" by (simp add: out')
  show "materialized_table_size out' = Suc (materialized_table_size out)"
    by (simp add: out' size_list_update c)
  show "well_placed f out'" if "well_placed f out"
    using that c by (auto simp: well_placed_def out' nth_list_update)
qed

lemma push_back_cluster_total:
  assumes "in_range f (length out)"
  shows "\<exists>out'. push_back_cluster f e out = Inr out'"
proof -
  from assms obtain c where "c < length out" "f (value_of e) = Inr c"
    unfolding in_range_def by blast
  then show ?thesis by (simp add: push_back_cluster_def)
qed

lemma run_job_Inr:
  "run_job f job out = Inr out' \<Longrightarrow>
     length out' = length out
     \<and> materialized_table_size out' = materialized_table_size out + length job
     \<and> (well_placed f out \<longrightarrow> well_placed f out')"
proof (induction job arbitrary: out)
  case Nil
  then show ?case by simp
next
  case (Cons e es)
  from Cons.prems obtain mid where mid: "push_back_cluster f e out = Inr mid"
    and rest: "run_job f es mid = Inr out'"
    by (auto split: sum.splits)
  from push_back_cluster_Inr [OF mid] Cons.IH [OF rest] show ?case by simp
qed

lemma run_job_total:
  "in_range f (length out) \<Longrightarrow> \<exists>out'. run_job f job out = Inr out'"
proof (induction job arbitrary: out)
  case Nil
  then show ?case by simp
next
  case (Cons e es)
  from push_back_cluster_total [OF Cons.prems] obtain mid
    where mid: "push_back_cluster f e out = Inr mid" by blast
  with Cons.prems have "in_range f (length mid)"
    by (simp add: push_back_cluster_Inr(1))
  from Cons.IH [OF this] mid show ?case by simp
qed

lemma finish_jobs_Inr:
  "finish_jobs f jobs out = Inr out' \<Longrightarrow>
     length out' = length out
     \<and> materialized_table_size out' = materialized_table_size out + materialized_table_size jobs
     \<and> (well_placed f out \<longrightarrow> well_placed f out')"
proof (induction jobs arbitrary: out)
  case Nil
  then show ?case by (simp add: materialized_table_size_def)
next
  case (Cons job jobs)
  from Cons.prems obtain mid where mid: "run_job f job out = Inr mid"
    and rest: "finish_jobs f jobs mid = Inr out'"
    by (auto split: sum.splits)
  from run_job_Inr [OF mid] Cons.IH [OF rest] show ?case
    by (simp add: materialized_table_size_def)
qed

lemma finish_jobs_total:
  "in_range f (length out) \<Longrightarrow> \<exists>out'. finish_jobs f jobs out = Inr out'"
proof (induction jobs arbitrary: out)
  case Nil
  then show ?case by simp
next
  case (Cons job jobs)
  from run_job_total [OF Cons.prems] obtain mid
    where mid: "run_job f job out = Inr mid" by blast
  with Cons.prems have "in_range f (length mid)"
    using run_job_Inr [OF mid] by simp
  from Cons.IH [OF this] mid show ?case by simp
qed

lemma size_take_entry:
  assumes "j < length jobs" "jobs ! j = e # es"
  shows "Suc (materialized_table_size (jobs[j := es])) = materialized_table_size jobs"
proof -
  have "length (jobs ! j) \<le> sum_list (map length jobs)"
    using assms(1) by (simp add: member_le_sum_list)
  moreover have "sum_list (map length (jobs[j := es]))
      = sum_list (map length jobs) + length es - length (jobs ! j)"
    using assms(1) by (simp add: map_update sum_list_update)
  ultimately show ?thesis
    using assms(2) by (simp add: materialized_table_size_def)
qed

lemma run_jobs_Inr:
  "run_jobs f schedule jobs out = Inr out' \<Longrightarrow>
     length out' = length out
     \<and> materialized_table_size out' = materialized_table_size out + materialized_table_size jobs
     \<and> (well_placed f out \<longrightarrow> well_placed f out')"
proof (induction schedule arbitrary: jobs out)
  case Nil
  then show ?case using finish_jobs_Inr by simp
next
  case (Cons j schedule)
  show ?case
  proof (cases "j < length jobs")
    case False
    with Cons.prems have "run_jobs f schedule jobs out = Inr out'" by simp
    from Cons.IH [OF this] show ?thesis .
  next
    case True
    show ?thesis
    proof (cases "jobs ! j")
      case Nil
      with True Cons.prems have "run_jobs f schedule jobs out = Inr out'" by simp
      from Cons.IH [OF this] show ?thesis .
    next
      case (Cons e es)
      with True Cons.prems obtain mid where mid: "push_back_cluster f e out = Inr mid"
        and rest: "run_jobs f schedule (jobs[j := es]) mid = Inr out'"
        by (auto split: sum.splits)
      from push_back_cluster_Inr [OF mid] Cons.IH [OF rest] size_take_entry [OF True Cons]
      show ?thesis by simp
    qed
  qed
qed

lemma run_jobs_total:
  "in_range f (length out) \<Longrightarrow> \<exists>out'. run_jobs f schedule jobs out = Inr out'"
proof (induction schedule arbitrary: jobs out)
  case Nil
  then show ?case using finish_jobs_total by simp
next
  case (Cons j schedule)
  show ?case
  proof (cases "j < length jobs")
    case False
    with Cons.IH [OF Cons.prems] show ?thesis by simp
  next
    case True
    show ?thesis
    proof (cases "jobs ! j")
      case Nil
      with True Cons.IH [OF Cons.prems] show ?thesis by simp
    next
      case (Cons e es)
      from push_back_cluster_total [OF Cons.prems] obtain mid
        where mid: "push_back_cluster f e out = Inr mid" by blast
      with Cons.prems have "in_range f (length mid)"
        by (simp add: push_back_cluster_Inr(1))
      from Cons.IH [OF this] mid True Cons show ?thesis by simp
    qed
  qed
qed

subsection \<open>The radix clusterer\<close>

lemma ucast_and_mask:
  "(ucast (v AND ucast m :: 32 word) :: 64 word) = ucast (v :: 32 word) AND (m :: 64 word)"
  by (rule bit_word_eqI) (auto simp: bit_simps dest: bit_imp_le_length)

lemma unat_ucast_32_64: "unat (ucast (x :: 32 word) :: 64 word) = unat x"
proof -
  have "unat x < 2 ^ 32" using unsigned_less [of x] by simp
  then have "unat x < 2 ^ 64" by simp
  then show ?thesis by (simp add: unsigned_ucast_eq take_bit_nat_eq_self)
qed

lemma unat_radix:
  "unat (get_radix v (ucast (m :: size_t))) = unat ((ucast v :: size_t) AND m)"
proof -
  have "unat (v AND ucast m :: 32 word) = unat (ucast (v AND ucast m :: 32 word) :: 64 word)"
    by (simp only: unat_ucast_32_64)
  then show ?thesis by (simp add: get_radix_def ucast_and_mask)
qed

lemma unat_radix_less:
  assumes "cluster_count \<noteq> (0 :: size_t)"
  shows "unat (get_radix v (ucast (cluster_count - 1))) < unat cluster_count"
proof -
  have "ucast v AND (cluster_count - 1) \<le> cluster_count - 1"
    by (rule word_and_le1)
  then have "unat ((ucast v :: size_t) AND (cluster_count - 1)) \<le> unat (cluster_count - 1)"
    by (simp add: word_le_nat_alt)
  also have "\<dots> < unat cluster_count"
    using assms by (simp add: unat_minus_one unat_gt_0)
  finally show ?thesis by (simp add: unat_radix)
qed

section \<open>The range clusterer\<close>

lemma range_clusterer_loop_first:
  assumes "length split_values = unat (cluster_count - 1)"
  shows "\<exists>i. range_clusterer_loop cluster_count split_values v c = Inr i
           \<and> (\<forall>j. c \<le> j \<and> j < i \<longrightarrow> \<not> sint v \<le> sint (split_values ! j))
           \<and> (if i < length split_values then c \<le> i \<and> sint v \<le> sint (split_values ! i)
               else i = unat (cluster_count - 1))"
  using assms
proof (induction cluster_count split_values v c rule: range_clusterer_loop.induct)
  case (1 cluster_count split_values v cluster_id)
  show ?case
  proof (cases "cluster_id < unat (cluster_count - 1)")
    case False
    with "1.prems" show ?thesis
      by (simp add: range_clusterer_loop.simps [of cluster_count split_values v cluster_id])
  next
    case in_loop: True
    show ?thesis
    proof (cases "sint v \<le> sint (split_values ! cluster_id)")
      case True
      with in_loop "1.prems" show ?thesis
        by (simp add: range_clusterer_loop.simps [of cluster_count split_values v cluster_id])
    next
      case False
      from "1.IH" [OF in_loop _ False "1.prems"] in_loop "1.prems"
      obtain i where i: "range_clusterer_loop cluster_count split_values v (Suc cluster_id) = Inr i"
        and before: "\<forall>j. Suc cluster_id \<le> j \<and> j < i \<longrightarrow> \<not> sint v \<le> sint (split_values ! j)"
        and at: "if i < length split_values then Suc cluster_id \<le> i \<and> sint v \<le> sint (split_values ! i)
                 else i = unat (cluster_count - 1)"
        by auto
      have "range_clusterer_loop cluster_count split_values v cluster_id = Inr i"
        using in_loop False "1.prems" i
        by (simp add: range_clusterer_loop.simps [of cluster_count split_values v cluster_id])
      moreover have "\<forall>j. cluster_id \<le> j \<and> j < i \<longrightarrow> \<not> sint v \<le> sint (split_values ! j)"
        using before False by (metis Suc_leI le_neq_implies_less)
      moreover have "if i < length split_values then cluster_id \<le> i \<and> sint v \<le> sint (split_values ! i)
                 else i = unat (cluster_count - 1)"
        using at by (auto split: if_splits)
      ultimately show ?thesis by blast
    qed
  qed
qed

text \<open>
  C6. In range mode the cluster decision function, given a split-value vector of
  \<open>cluster_count - 1\<close> entries, returns the first index \<open>i\<close> (scanning from low to high)
  with \<open>v \<le> split_values[i]\<close>, and \<open>cluster_count - 1\<close> when there is no such index.
  Values are \<open>int32_t\<close> and compare as signed integers.
\<close>

theorem range_clusterer_first_index:
  assumes "length split_values = unat (cluster_count - 1)"
  shows "(\<forall>i < length split_values.
            sint v \<le> sint (split_values ! i) \<and> (\<forall>j < i. \<not> sint v \<le> sint (split_values ! j))
            \<longrightarrow> range_clusterer cluster_count split_values v = Inr i)
       \<and> ((\<forall>j < length split_values. \<not> sint v \<le> sint (split_values ! j))
            \<longrightarrow> range_clusterer cluster_count split_values v = Inr (unat (cluster_count - 1)))"
proof -
  from range_clusterer_loop_first [OF assms, of v 0]
  obtain r where r: "range_clusterer cluster_count split_values v = Inr r"
    and before: "\<forall>j < r. \<not> sint v \<le> sint (split_values ! j)"
    and at: "if r < length split_values then sint v \<le> sint (split_values ! r)
             else r = unat (cluster_count - 1)"
    by (auto simp: range_clusterer_def split: if_splits)
  have "r = i" if "i < length split_values" "sint v \<le> sint (split_values ! i)"
    "\<forall>j < i. \<not> sint v \<le> sint (split_values ! j)" for i
  proof (rule ccontr)
    assume "r \<noteq> i"
    then consider "r < i" | "i < r" by linarith
    then show False
    proof cases
      case 1
      with that(1) have "r < length split_values" by simp
      with at have "sint v \<le> sint (split_values ! r)" by simp
      with that(3) 1 show False by blast
    next
      case 2
      with before that(2) show False by blast
    qed
  qed
  moreover have "r = unat (cluster_count - 1)"
    if "\<forall>j < length split_values. \<not> sint v \<le> sint (split_values ! j)"
    using at that by (auto split: if_splits)
  ultimately show ?thesis using r by blast
qed

theorem range_clusterer_first_index_witness:
  "length [10, 20, 30 :: int32_t] = unat ((4 :: size_t) - 1)
   \<and> range_clusterer 4 [10, 20, 30] 15 = Inr 1
   \<and> range_clusterer 4 [10, 20, 30] 31 = Inr 3"
proof -
  have len: "length [10, 20, 30 :: int32_t] = unat ((4 :: size_t) - 1)" by simp
  have "range_clusterer 4 [10, 20, 30] 15 = Inr 1"
    using range_clusterer_first_index [OF len, of 15] by (simp add: nth_Cons')
  moreover have "range_clusterer 4 [10, 20, 30] 31 = Inr 3"
    using range_clusterer_first_index [OF len, of 31] by (simp add: nth_Cons' All_less_Suc)
  ultimately show ?thesis using len by blast
qed

section \<open>Radix clustering\<close>

lemma cluster_Inr:
  assumes "cluster cluster_count schedule input_chunks f = Inr output_table"
  shows "length output_table = unat cluster_count"
    and "materialized_table_size output_table = materialized_table_size input_chunks"
    and "well_placed f output_table"
proof -
  have start: "well_placed f (replicate (unat cluster_count) [])"
    "materialized_table_size (replicate (unat cluster_count) []) = 0"
    by (simp_all add: well_placed_def materialized_table_size_def)
  from assms have run: "run_jobs f schedule input_chunks (replicate (unat cluster_count) []) = Inr output_table"
    by (simp add: cluster_def)
  from run_jobs_Inr [OF run] start
  show "length output_table = unat cluster_count"
    and "materialized_table_size output_table = materialized_table_size input_chunks"
    and "well_placed f output_table"
    by simp_all
qed

lemma cluster_total:
  assumes "in_range f (unat cluster_count)"
  shows "\<exists>output_table. cluster cluster_count schedule input_chunks f = Inr output_table"
  using run_jobs_total [of f "replicate (unat cluster_count) []" schedule input_chunks] assms
  by (simp add: cluster_def)

lemma radix_clusterer_in_range:
  "cluster_count \<noteq> 0 \<Longrightarrow> in_range (radix_clusterer cluster_count) (unat cluster_count)"
  by (simp add: in_range_def radix_clusterer_def unat_radix_less)

lemma replicate_2: "replicate 2 x = [x, x]"
  by (simp add: numeral_2_eq_2)

text \<open>
  With the overload of \<open>get_radix\<close> for arithmetic types (at \<open>T = int32_t\<close>), whatever
  the interleaving of the clustering jobs, every record placed in cluster \<open>c\<close> has
  \<open>clusterer(r.value) = c\<close>, where the clusterer is the lambda of \<open>_radix_cluster\<close> and
  equals \<open>radix(v) & (cluster_count - 1)\<close> computed in \<open>size_t\<close>; hence two records with
  equal values are in the same cluster. The run returns (no subscript leaves the
  output table) for every non-zero cluster count.
\<close>

theorem radix_cluster_colocation:
  assumes "cluster_count \<noteq> 0"
  shows "\<exists>output_table.
           radix_cluster cluster_count schedule input_chunks = Inr output_table
           \<and> length output_table = unat cluster_count
           \<and> materialized_table_size output_table = materialized_table_size input_chunks
           \<and> (\<forall>c < length output_table. \<forall>r \<in> set (output_table ! c).
                 radix_clusterer cluster_count (value_of r) = Inr c
                 \<and> unat ((ucast (value_of r) :: size_t) AND (cluster_count - 1)) = c)
           \<and> (\<forall>c < length output_table. \<forall>c' < length output_table.
                 \<forall>r \<in> set (output_table ! c). \<forall>r' \<in> set (output_table ! c').
                   value_of r = value_of r' \<longrightarrow> c = c')"
proof -
  from cluster_total [OF radix_clusterer_in_range [OF assms]]
  obtain output_table
    where run: "cluster cluster_count schedule input_chunks (radix_clusterer cluster_count) = Inr output_table"
    by blast
  note facts = cluster_Inr [OF run]
  have placed: "radix_clusterer cluster_count (value_of r) = Inr c"
    if "c < length output_table" "r \<in> set (output_table ! c)" for c r
    using facts(3) that by (simp add: well_placed_def)
  have formula: "unat ((ucast (value_of r) :: size_t) AND (cluster_count - 1)) = c"
    if "c < length output_table" "r \<in> set (output_table ! c)" for c r
    using placed [OF that] by (simp add: radix_clusterer_def unat_radix)
  have "c = c'"
    if "c < length output_table" "c' < length output_table"
      "r \<in> set (output_table ! c)" "r' \<in> set (output_table ! c')" "value_of r = value_of r'"
    for c c' r r'
    using placed [OF that(1,3)] placed [OF that(2,4)] that(5) by simp
  with run facts(1,2) placed formula show ?thesis
    unfolding radix_cluster_def by blast
qed

theorem radix_cluster_colocation_witness:
  "(2 :: size_t) \<noteq> 0
   \<and> radix_cluster 2 [1, 0]
        [[\<lparr>value_of = 5, row_id = (0, 0)\<rparr>, \<lparr>value_of = 2, row_id = (0, 1)\<rparr>],
         [\<lparr>value_of = 5, row_id = (1, 0)\<rparr>]]
      = Inr [[\<lparr>value_of = 2, row_id = (0, 1)\<rparr>],
             [\<lparr>value_of = 5, row_id = (1, 0)\<rparr>, \<lparr>value_of = 5, row_id = (0, 0)\<rparr>]]
   \<and> (\<exists>output_table.
         radix_cluster 2 [1, 0]
           [[\<lparr>value_of = 5, row_id = (0, 0)\<rparr>, \<lparr>value_of = 2, row_id = (0, 1)\<rparr>],
            [\<lparr>value_of = 5, row_id = (1, 0)\<rparr>]] = Inr output_table
         \<and> (\<forall>c < length output_table. \<forall>r \<in> set (output_table ! c).
               unat ((ucast (value_of r) :: size_t) AND (2 - 1)) = c))"
proof -
  have nz: "(2 :: size_t) \<noteq> 0" by simp
  have run: "radix_cluster 2 [1, 0]
        [[\<lparr>value_of = 5, row_id = (0, 0)\<rparr>, \<lparr>value_of = 2, row_id = (0, 1)\<rparr>],
         [\<lparr>value_of = 5, row_id = (1, 0)\<rparr>]]
      = Inr [[\<lparr>value_of = 2, row_id = (0, 1)\<rparr>],
             [\<lparr>value_of = 5, row_id = (1, 0)\<rparr>, \<lparr>value_of = 5, row_id = (0, 0)\<rparr>]]"
    by (simp add: radix_cluster_def cluster_def push_back_cluster_def radix_clusterer_def
        get_radix_def replicate_2)
  from radix_cluster_colocation [OF nz, of "[1, 0]"
        "[[\<lparr>value_of = 5, row_id = (0, 0)\<rparr>, \<lparr>value_of = 2, row_id = (0, 1)\<rparr>],
         [\<lparr>value_of = 5, row_id = (1, 0)\<rparr>]]"]
  show ?thesis using nz run by blast
qed

subsection \<open>Radix clustering of strings\<close>

lemma run_job_fails:
  assumes "\<forall>entry \<in> set job. f (value_of entry) = Inl e" "job \<noteq> []"
  shows "run_job f job output_table = Inl e"
  using assms by (cases job) (simp_all add: push_back_cluster_def)

lemma finish_jobs_fails:
  "\<forall>entry \<in> set (concat jobs). f (value_of entry) = Inl e \<Longrightarrow> concat jobs \<noteq> []
   \<Longrightarrow> finish_jobs f jobs output_table = Inl e"
proof (induction jobs arbitrary: output_table)
  case Nil
  then show ?case by simp
next
  case (Cons job jobs)
  show ?case
  proof (cases "job = []")
    case True
    with Cons.prems have "finish_jobs f jobs output_table = Inl e"
      by (intro Cons.IH) simp_all
    with True show ?thesis by simp
  next
    case False
    with Cons.prems have "run_job f job output_table = Inl e"
      by (intro run_job_fails) simp_all
    then show ?thesis by simp
  qed
qed

lemma run_jobs_fails:
  "\<forall>entry \<in> set (concat jobs). f (value_of entry) = Inl e \<Longrightarrow> concat jobs \<noteq> []
   \<Longrightarrow> run_jobs f schedule jobs output_table = Inl e"
proof (induction schedule arbitrary: jobs output_table)
  case Nil
  then show ?case by (simp add: finish_jobs_fails)
next
  case step: (Cons j schedule)
  note rest = step.IH [OF step.prems]
  show ?case
  proof (cases "j < length jobs")
    case False
    with rest show ?thesis by simp
  next
    case True
    show ?thesis
    proof (cases "jobs ! j")
      case Nil
      with True rest show ?thesis by simp
    next
      case first: (Cons entry entries)
      have "entry \<in> set (jobs ! j)" using first by simp
      moreover from True have "jobs ! j \<in> set jobs" by simp
      ultimately have "entry \<in> set (concat jobs)" by auto
      with step.prems(1) have "f (value_of entry) = Inl e" by blast
      with True first show ?thesis by (simp add: push_back_cluster_def)
    qed
  qed
qed

lemma get_radix_string_short:
  "length v < 3 \<Longrightarrow> get_radix_string v radix_bitmask = Inl UB_OutOfBounds"
  by (simp add: get_radix_string_def c_str_def)

text \<open>
  Where \<open>_radix_cluster\<close> returns on a column of strings (every string has three
  characters or more), every record is in the cluster its first four bytes name.
\<close>

lemma radix_cluster_string_colocation:
  assumes "radix_cluster_string cluster_count schedule input_chunks = Inr output_table"
    and "c < length output_table" "r \<in> set (output_table ! c)"
  shows "3 \<le> length (value_of r)"
    and "unat (load_little_endian (take 4 (c_str (value_of r))) AND ucast (cluster_count - 1)) = c"
proof -
  from assms(1) have "well_placed (radix_clusterer_string cluster_count) output_table"
    unfolding radix_cluster_string_def by (rule cluster_Inr(3))
  with assms(2,3) have placed: "radix_clusterer_string cluster_count (value_of r) = Inr c"
    by (simp add: well_placed_def)
  then show "3 \<le> length (value_of r)"
    by (auto simp: radix_clusterer_string_def get_radix_string_def c_str_def split: if_splits)
  from placed
  show "unat (load_little_endian (take 4 (c_str (value_of r))) AND ucast (cluster_count - 1)) = c"
    by (auto simp: radix_clusterer_string_def get_radix_string_def split: if_splits)
qed

text \<open>
  C5. The claim is that in radix mode every record is in the cluster
  \<open>radix(value) & (cluster_count - 1)\<close>, so that equal values share a cluster; the
  header comment of the class (line 19) says the same. For a column of strings the
  radix is read by the \<open>std::string\<close> overload of \<open>get_radix\<close>, four bytes at \<open>c_str()\<close>.
  The empty string has one byte there, the terminator; the overload reads three bytes
  past it, and \<open>_radix_cluster\<close> has undefined behaviour on every column that holds a
  string of fewer than three characters, whatever the interleaving of the jobs: the
  cluster of such a record is decided by bytes that are not part of its value, and two
  records with the empty string as value need not share a cluster: with 512 clusters
  the four bytes name cluster 0 when three zero bytes follow the terminator and cluster
  256 when the first of them is 1.
\<close>

theorem string_radix_reads_past_end:
  "length (c_str '''') = 1
   \<and> get_radix_string '''' 511 = Inl UB_OutOfBounds
   \<and> get_radix_string ''ab'' 511 = Inl UB_OutOfBounds
   \<and> radix_cluster_string 512 schedule
       [[\<lparr>value_of = '''', row_id = (0, 0)\<rparr>], [\<lparr>value_of = '''', row_id = (1, 0)\<rparr>]]
     = Inl UB_OutOfBounds
   \<and> load_little_endian (c_str '''' @ [0, 0, 0]) AND 511 = 0
   \<and> load_little_endian (c_str '''' @ [1, 0, 0]) AND 511 = 256"
proof -
  have "run_jobs (radix_clusterer_string 512) schedule
          [[\<lparr>value_of = '''', row_id = (0, 0)\<rparr>], [\<lparr>value_of = '''', row_id = (1, 0)\<rparr>]]
          (replicate (unat (512 :: size_t)) [])
        = Inl UB_OutOfBounds"
    by (rule run_jobs_fails) (simp_all add: radix_clusterer_string_def get_radix_string_short)
  then show ?thesis
    by (simp add: radix_cluster_string_def cluster_def get_radix_string_short c_str_def)
qed


section \<open>Row counts through execute\<close>

lemma length_materialize_chunk [simp]:
  "length (materialize_chunk sort_chunks chunk_id chunk) = length chunk"
  by (simp add: materialize_chunk_def Let_def)

lemma materialize_size_from:
  "sum_list (map (length \<circ> (\<lambda>(chunk_id, chunk). materialize_chunk sort_chunks chunk_id chunk))
                 (enumerate n t))
   = sum_list (map length t)"
  by (induction t arbitrary: n) simp_all

lemma materialize_size:
  "materialized_table_size (materialize sort_chunks t) = row_count t"
  by (simp add: materialized_table_size_def materialize_def row_count_def materialize_size_from)

lemma sort_clusters_size:
  "materialized_table_size (sort_clusters clusters) = materialized_table_size clusters"
  by (simp add: materialized_table_size_def sort_clusters_def comp_def)

lemma concatenate_chunks_size:
  "materialized_table_size (concatenate_chunks input_chunks) = materialized_table_size input_chunks"
  by (simp add: materialized_table_size_def concatenate_chunks_def length_concat)

lemma pick_chunk_samples_length:
  "pick_chunk_samples cluster_count chunk_values cluster_ids sample_values = Inr sample_values'
   \<Longrightarrow> length sample_values' = length sample_values"
proof (induction cluster_ids arbitrary: sample_values)
  case Nil
  then show ?case by simp
next
  case (Cons cluster_id cluster_ids)
  from Cons.prems Cons.IH show ?case
    by (fastforce simp: Let_def split: if_splits)
qed

lemma pick_sample_values_length:
  "pick_sample_values cluster_count sample_values table = Inr sample_values'
   \<Longrightarrow> length sample_values' = length sample_values"
proof (induction table arbitrary: sample_values)
  case Nil
  then show ?case by simp
next
  case (Cons chunk_values chunks)
  from Cons.prems obtain mid
    where mid: "pick_chunk_samples cluster_count chunk_values [0 ..< unat (cluster_count - 1)]
                  sample_values = Inr mid"
      and rest: "pick_sample_values cluster_count mid chunks = Inr sample_values'"
    by (auto split: sum.splits)
  from pick_chunk_samples_length [OF mid] Cons.IH [OF rest] show ?case by simp
qed

lemma pick_split_values_length:
  "pick_split_values sample_values = Inr split_values
   \<Longrightarrow> length split_values = length sample_values"
  by (induction sample_values arbitrary: split_values)
     (auto split: option.splits sum.splits)

lemma split_values_of_Inr:
  assumes "split_values_of cluster_count input_left input_right = Inr split_values"
  shows "cluster_count \<noteq> 0" and "length split_values = unat (cluster_count - 1)"
proof -
  from assms show nz: "cluster_count \<noteq> 0"
    by (auto simp: split_values_of_def sample_histograms_def split: if_splits sum.splits)
  from assms nz obtain s1 s2
    where s1: "pick_sample_values cluster_count (replicate (unat (cluster_count - 1)) []) input_left = Inr s1"
      and s2: "pick_sample_values cluster_count s1 input_right = Inr s2"
      and sv: "pick_split_values s2 = Inr split_values"
    by (auto simp: split_values_of_def sample_histograms_def split: sum.splits)
  from pick_sample_values_length [OF s1] pick_sample_values_length [OF s2]
    pick_split_values_length [OF sv]
  show "length split_values = unat (cluster_count - 1)" by simp
qed

lemma range_clusterer_in_range:
  assumes "cluster_count \<noteq> 0" "length split_values = unat (cluster_count - 1)"
  shows "in_range (range_clusterer cluster_count split_values) (unat cluster_count)"
  unfolding in_range_def
proof
  fix v
  from range_clusterer_loop_first [OF assms(2), of v 0]
  obtain i where i: "range_clusterer cluster_count split_values v = Inr i"
    and "if i < length split_values then sint v \<le> sint (split_values ! i)
         else i = unat (cluster_count - 1)"
    by (auto simp: range_clusterer_def split: if_splits)
  then have "i \<le> unat (cluster_count - 1)"
    using assms(2) by (auto split: if_splits)
  also have "\<dots> < unat cluster_count"
    using assms(1) by (simp add: unat_minus_one unat_gt_0)
  finally show "\<exists>c<unat cluster_count. range_clusterer cluster_count split_values v = Inr c"
    using i by blast
qed

lemma range_cluster_Inr:
  assumes "range_cluster cluster_count schedule_left schedule_right input_left input_right
           = Inr (output_left, output_right)"
  shows "materialized_table_size output_left = materialized_table_size input_left"
    and "materialized_table_size output_right = materialized_table_size input_right"
proof -
  from assms obtain sv
    where l: "cluster cluster_count schedule_left input_left (range_clusterer cluster_count sv)
              = Inr output_left"
      and r: "cluster cluster_count schedule_right input_right (range_clusterer cluster_count sv)
              = Inr output_right"
    by (auto simp: range_cluster_def split: sum.splits)
  from cluster_Inr(2) [OF l] cluster_Inr(2) [OF r]
  show "materialized_table_size output_left = materialized_table_size input_left"
    and "materialized_table_size output_right = materialized_table_size input_right"
    by simp_all
qed

lemma range_cluster_total:
  assumes "split_values_of cluster_count input_left input_right = Inr split_values"
  shows "\<exists>output_left output_right.
           range_cluster cluster_count schedule_left schedule_right input_left input_right
           = Inr (output_left, output_right)"
proof -
  note rng = range_clusterer_in_range [OF split_values_of_Inr [OF assms]]
  from cluster_total [OF rng] obtain l
    where "cluster cluster_count schedule_left input_left (range_clusterer cluster_count split_values)
           = Inr l" by blast
  moreover from cluster_total [OF rng] obtain r
    where "cluster cluster_count schedule_right input_right (range_clusterer cluster_count split_values)
           = Inr r" by blast
  ultimately show ?thesis using assms by (simp add: range_cluster_def)
qed

lemma clustered_Inr:
  assumes "clustered schedule_left schedule_right this = Inr (clusters_left, clusters_right)"
  shows "materialized_table_size clusters_left = row_count (input_table_left this)"
    and "materialized_table_size clusters_right = row_count (input_table_right this)"
proof -
  consider (concat) "cluster_count_of this = 1"
    | (radix) "cluster_count_of this \<noteq> 1" "equi_case this"
    | (range) "cluster_count_of this \<noteq> 1" "\<not> equi_case this" by blast
  then have "materialized_table_size clusters_left = row_count (input_table_left this)
       \<and> materialized_table_size clusters_right = row_count (input_table_right this)"
  proof cases
    case concat
    with assms show ?thesis
      by (auto simp: clustered_def Let_def concatenate_chunks_size materialize_size)
  next
    case radix
    with assms have
      "cluster (cluster_count_of this) schedule_left (materialize False (input_table_left this))
         (radix_clusterer (cluster_count_of this)) = Inr clusters_left"
      "cluster (cluster_count_of this) schedule_right (materialize False (input_table_right this))
         (radix_clusterer (cluster_count_of this)) = Inr clusters_right"
      by (auto simp: clustered_def Let_def radix_cluster_def split: sum.splits)
    from cluster_Inr(2) [OF this(1)] cluster_Inr(2) [OF this(2)] show ?thesis
      by (simp add: materialize_size)
  next
    case range
    with assms have
      "range_cluster (cluster_count_of this) schedule_left schedule_right
         (materialize True (input_table_left this)) (materialize True (input_table_right this))
       = Inr (clusters_left, clusters_right)"
      by (simp add: clustered_def Let_def)
    from range_cluster_Inr [OF this] show ?thesis
      by (simp add: materialize_size)
  qed
  then show "materialized_table_size clusters_left = row_count (input_table_left this)"
    and "materialized_table_size clusters_right = row_count (input_table_right this)"
    by simp_all
qed

lemma execute_clustered:
  "execute debug schedule_left schedule_right this =
     (case clustered schedule_left schedule_right this of
           Inl e \<Rightarrow> Inl e
         | Inr (clusters_left, clusters_right) \<Rightarrow>
             (let output_left = sort_clusters clusters_left;
                  output_right = sort_clusters clusters_right
              in if debug \<and> materialized_table_size output_left \<noteq> row_count (input_table_left this)
                 then Inl (AssertionFailed ''left output has wrong size'')
                 else if debug \<and> materialized_table_size output_right \<noteq> row_count (input_table_right this)
                 then Inl (AssertionFailed ''right output has wrong size'')
                 else Inr (output_left, output_right)))"
  by (simp add: execute_def clustered_def Let_def)

lemma execute_of_clustered:
  assumes "clustered schedule_left schedule_right this = Inr (clusters_left, clusters_right)"
  shows "execute debug schedule_left schedule_right this
         = Inr (sort_clusters clusters_left, sort_clusters clusters_right)"
  using clustered_Inr [OF assms] assms
  by (simp add: execute_clustered sort_clusters_size)

text \<open>
  C4. Whatever the build (debug or release), the interleavings of the clustering jobs
  and the cluster count, the clustered columns that \<open>execute\<close> returns hold as many
  records as the source table has rows, on the left and on the right side. \<open>execute\<close>
  returns for every non-zero cluster count on the concatenating path
  (\<open>cluster_count = 1\<close>) and on the radix path; on the range path it returns whenever
  the sampling of split values does (sampling reads a record of every chunk and the
  largest entry of every histogram, and stops the run where there is none). In
  particular the two size assertions at the end of \<open>execute\<close> never fail.
\<close>

theorem execute_preserves_row_count:
  "(\<forall>output_left output_right.
      execute debug schedule_left schedule_right this = Inr (output_left, output_right)
      \<longrightarrow> materialized_table_size output_left = row_count (input_table_left this)
        \<and> materialized_table_size output_right = row_count (input_table_right this))
   \<and> (cluster_count_of this \<noteq> 0
        \<and> (cluster_count_of this = 1 \<or> equi_case this
           \<or> (\<exists>split_values.
                 split_values_of (cluster_count_of this)
                   (materialize True (input_table_left this))
                   (materialize True (input_table_right this)) = Inr split_values))
      \<longrightarrow> (\<exists>output_left output_right.
             execute debug schedule_left schedule_right this = Inr (output_left, output_right)))"
proof (intro conjI allI impI)
  fix output_left output_right
  assume run: "execute debug schedule_left schedule_right this = Inr (output_left, output_right)"
  then obtain clusters_left clusters_right
    where c: "clustered schedule_left schedule_right this = Inr (clusters_left, clusters_right)"
    by (auto simp: execute_clustered split: sum.splits)
  from execute_of_clustered [OF c, of debug] run
  have "output_left = sort_clusters clusters_left" "output_right = sort_clusters clusters_right"
    by simp_all
  with clustered_Inr [OF c]
  show "materialized_table_size output_left = row_count (input_table_left this)"
    and "materialized_table_size output_right = row_count (input_table_right this)"
    by (simp_all add: sort_clusters_size)
next
  assume a: "cluster_count_of this \<noteq> 0
        \<and> (cluster_count_of this = 1 \<or> equi_case this
           \<or> (\<exists>split_values.
                 split_values_of (cluster_count_of this)
                   (materialize True (input_table_left this))
                   (materialize True (input_table_right this)) = Inr split_values))"
  have "\<exists>clusters_left clusters_right.
          clustered schedule_left schedule_right this = Inr (clusters_left, clusters_right)"
  proof (cases "cluster_count_of this = 1")
    case True
    then show ?thesis by (simp add: clustered_def Let_def)
  next
    case not_one: False
    show ?thesis
    proof (cases "equi_case this")
      case True
      from a have rng: "in_range (radix_clusterer (cluster_count_of this)) (unat (cluster_count_of this))"
        by (simp add: radix_clusterer_in_range)
      from cluster_total [OF rng] obtain l
        where "radix_cluster (cluster_count_of this) schedule_left
                 (materialize False (input_table_left this)) = Inr l"
        unfolding radix_cluster_def by blast
      moreover from cluster_total [OF rng] obtain r
        where "radix_cluster (cluster_count_of this) schedule_right
                 (materialize False (input_table_right this)) = Inr r"
        unfolding radix_cluster_def by blast
      ultimately show ?thesis using True not_one by (simp add: clustered_def Let_def)
    next
      case False
      with a not_one obtain split_values
        where "split_values_of (cluster_count_of this)
                   (materialize True (input_table_left this))
                   (materialize True (input_table_right this)) = Inr split_values"
        by blast
      from range_cluster_total [OF this] False not_one show ?thesis
        by (simp add: clustered_def Let_def)
    qed
  qed
  then obtain clusters_left clusters_right
    where "clustered schedule_left schedule_right this = Inr (clusters_left, clusters_right)"
    by blast
  from execute_of_clustered [OF this]
  show "\<exists>output_left output_right.
          execute debug schedule_left schedule_right this = Inr (output_left, output_right)"
    by blast
qed

theorem execute_preserves_row_count_witness:
  "(\<exists>output_left output_right.
      execute True [0, 1, 1, 0] []
        \<lparr>input_table_left = [[5, 1, 3], [5, 2]], input_table_right = [[5, 2]],
         equi_case = True, cluster_count_of = 2\<rparr> = Inr (output_left, output_right)
      \<and> materialized_table_size output_left = 5 \<and> materialized_table_size output_right = 2)
   \<and> (\<exists>output_left output_right.
      execute True [] []
        \<lparr>input_table_left = [[10, 20, 30]], input_table_right = [[40, 50]],
         equi_case = False, cluster_count_of = 2\<rparr> = Inr (output_left, output_right)
      \<and> materialized_table_size output_left = 3 \<and> materialized_table_size output_right = 2)
   \<and> (\<exists>output_left output_right.
      execute True [] []
        \<lparr>input_table_left = [[5, 1, 3], [5, 2]], input_table_right = [[5, 2]],
         equi_case = False, cluster_count_of = 1\<rparr> = Inr (output_left, output_right)
      \<and> materialized_table_size output_left = 5 \<and> materialized_table_size output_right = 2)"
proof -
  have sv: "split_values_of 2 (materialize True [[10, 20, 30]]) (materialize True [[40, 50]]) = Inr [1]"
    by (simp add: split_values_of_def sample_histograms_def materialize_def materialize_chunk_def enumerate_eq_zip
        sample_index_def f32_of_nat_def f32_div_def f32_to_size_t_def round_half_even_def
        bit_length.simps upt_rec [of 0] Let_def)
  have radix: "\<exists>output_left output_right.
      execute True [0, 1, 1, 0] []
        \<lparr>input_table_left = [[5, 1, 3], [5, 2]], input_table_right = [[5, 2]],
         equi_case = True, cluster_count_of = 2\<rparr> = Inr (output_left, output_right)
      \<and> materialized_table_size output_left = 5 \<and> materialized_table_size output_right = 2"
    using execute_preserves_row_count [of True "[0, 1, 1, 0]" "[]"
        "\<lparr>input_table_left = [[5, 1, 3], [5, 2]], input_table_right = [[5, 2]],
         equi_case = True, cluster_count_of = 2\<rparr>"]
    by (fastforce simp: row_count_def)
  have range: "\<exists>output_left output_right.
      execute True [] []
        \<lparr>input_table_left = [[10, 20, 30]], input_table_right = [[40, 50]],
         equi_case = False, cluster_count_of = 2\<rparr> = Inr (output_left, output_right)
      \<and> materialized_table_size output_left = 3 \<and> materialized_table_size output_right = 2"
    using execute_preserves_row_count [of True "[]" "[]"
        "\<lparr>input_table_left = [[10, 20, 30]], input_table_right = [[40, 50]],
         equi_case = False, cluster_count_of = 2\<rparr>"] sv
    by (fastforce simp: row_count_def)
  have concat: "\<exists>output_left output_right.
      execute True [] []
        \<lparr>input_table_left = [[5, 1, 3], [5, 2]], input_table_right = [[5, 2]],
         equi_case = False, cluster_count_of = 1\<rparr> = Inr (output_left, output_right)
      \<and> materialized_table_size output_left = 5 \<and> materialized_table_size output_right = 2"
    using execute_preserves_row_count [of True "[]" "[]"
        "\<lparr>input_table_left = [[5, 1, 3], [5, 2]], input_table_right = [[5, 2]],
         equi_case = False, cluster_count_of = 1\<rparr>"]
    by (fastforce simp: row_count_def)
  from radix range concat show ?thesis by blast
qed

section \<open>Sampling and split values\<close>

lemmas f32_eval = sample_index_def f32_of_nat_def f32_div_def f32_to_size_t_def
  round_half_even_def bit_length.simps Let_def

lemma pick_chunk_samples_out_of_bounds:
  assumes "cluster_id \<in> set cluster_ids"
    and "\<not> sample_index cluster_count (length chunk_values) cluster_id < length chunk_values"
  shows "pick_chunk_samples cluster_count chunk_values cluster_ids sample_values = Inl UB_OutOfBounds"
  using assms(1)
proof (induction cluster_ids arbitrary: sample_values)
  case Nil
  then show ?case by simp
next
  case (Cons c cs)
  show ?case
  proof (cases "c = cluster_id")
    case True
    with assms(2) show ?thesis by (simp add: Let_def)
  next
    case False
    with Cons.prems have "cluster_id \<in> set cs" by simp
    from Cons.IH [OF this] show ?thesis by (simp add: Let_def)
  qed
qed

lemma sample_index_one_past: "sample_index 33554432 (Suc 0) 33554430 = Suc 0"
  by (simp add: f32_eval)

lemma execute_sampling_fails:
  assumes "\<not> equi_case this" "cluster_count_of this \<noteq> 1"
    and "split_values_of (cluster_count_of this) (materialize True (input_table_left this))
           (materialize True (input_table_right this)) = Inl e"
  shows "execute debug schedule_left schedule_right this = Inl e"
  using assms by (simp add: execute_def range_cluster_def Let_def)

text \<open>
  C10. The claim is that for a chunk of \<open>n \<ge> 1\<close> records, \<open>k \<ge> 2\<close> clusters and a
  cluster id in \<open>[0, k - 2]\<close> the sampled index is below \<open>n\<close>. The source computes the
  index in single precision, and there the claim fails: with \<open>n = 1\<close>,
  \<open>k = 2 ^ 25 = 33554432\<close> and cluster id \<open>k - 2\<close> the product \<open>33554431\<close> is not a
  \<open>float\<close> and rounds to \<open>33554432\<close>, the quotient is \<open>1.0\<close>, and the subscript \<open>1\<close>
  is past the end of the chunk. \<open>_pick_sample_values\<close> and with it \<open>execute\<close> on the
  range path read out of bounds for every table whose first chunk has one row.
\<close>

theorem sample_index_out_of_bounds:
  "sample_index 33554432 (length [r]) 33554430 = length [r]
   \<and> pick_sample_values 33554432 sample_values ([r] # chunks) = Inl UB_OutOfBounds
   \<and> execute debug schedule_left schedule_right
        \<lparr>input_table_left = [[v]], input_table_right = right, equi_case = False,
         cluster_count_of = 33554432\<rparr> = Inl UB_OutOfBounds"
proof -
  have idx: "sample_index 33554432 (length [r]) 33554430 = length [r]" for r :: "int32_t materialized_value"
    using sample_index_one_past by simp
  have chunk: "pick_chunk_samples 33554432 [r] [0 ..< 33554431] sample_values
               = Inl UB_OutOfBounds" for r sample_values
    by (rule pick_chunk_samples_out_of_bounds [of 33554430]) (simp_all add: sample_index_one_past)
  have table: "pick_sample_values 33554432 sample_values ([r] # chunks) = Inl UB_OutOfBounds"
    for r sample_values chunks
    by (simp add: chunk)
  have "materialize True [[v]] = [[\<lparr>value_of = v, row_id = (0, 0)\<rparr>]]"
    by (simp add: materialize_def materialize_chunk_def enumerate_eq_zip)
  then have "split_values_of 33554432 (materialize True [[v]]) (materialize True right)
             = Inl UB_OutOfBounds"
    by (simp add: split_values_of_def sample_histograms_def chunk)
  then have "execute debug schedule_left schedule_right
        \<lparr>input_table_left = [[v]], input_table_right = right, equi_case = False,
         cluster_count_of = 33554432\<rparr> = Inl UB_OutOfBounds"
    by (intro execute_sampling_fails) simp_all
  with idx table show ?thesis by blast
qed

text \<open>
  C1. The claim is that each split value is the sampled value with the highest count
  (the smaller value on ties). The source assigns \<open>max_element(...)->second\<close>, the
  count. For the left chunk \<open>[10, 20, 30]\<close>, the right chunk \<open>[40, 50]\<close> and two clusters
  the histogram of the one split is \<open>{20: 1, 50: 1}\<close>; the claim asks for the split
  value \<open>20\<close> and the source computes \<open>1\<close>.
\<close>

theorem split_values_are_counts:
  "sample_histograms 2 (materialize True [[10, 20, 30]]) (materialize True [[40, 50]])
     = Inr [[(20, 1), (50, 1)]]
   \<and> split_values_of 2 (materialize True [[10, 20, 30]]) (materialize True [[40, 50]]) = Inr [1]"
  by (simp add: split_values_of_def sample_histograms_def materialize_def materialize_chunk_def enumerate_eq_zip
        f32_eval upt_rec [of 0])
section \<open>Further properties of the clustering\<close>

subsection \<open>Split values are counts\<close>

lemma foldl_largest:
  fixes x :: "int32_t \<times> nat"
  shows "foldl (\<lambda>largest y. if snd largest < snd y then y else largest) x xs \<in> set (x # xs)
   \<and> (\<forall>y \<in> set (x # xs).
        snd y \<le> snd (foldl (\<lambda>largest y. if snd largest < snd y then y else largest) x xs))"
proof (induction xs arbitrary: x)
  case Nil
  then show ?case by simp
next
  case (Cons a xs)
  show ?case
  proof (cases "snd x < snd a")
    case True
    with Cons.IH [of a] show ?thesis by (auto simp: less_imp_le intro: order_trans less_imp_le)
  next
    case False
    with Cons.IH [of x] show ?thesis by (auto intro: order_trans)
  qed
qed

lemma max_element_Some:
  assumes "max_element h = Some (v, c)"
  shows "(v, c) \<in> set h" and "\<forall>(v', c') \<in> set h. c' \<le> c"
proof -
  from assms obtain x xs where h: "h = x # xs"
    and m: "foldl (\<lambda>largest y. if snd largest < snd y then y else largest) x xs = (v, c)"
    by (cases h) auto
  from foldl_largest [of x xs] m show "(v, c) \<in> set h" and "\<forall>(v', c') \<in> set h. c' \<le> c"
    by (auto simp: h)
qed

lemma pick_split_values_counts:
  "pick_split_values hs = Inr svs \<Longrightarrow>
     length svs = length hs
     \<and> (\<forall>i < length hs. \<exists>v c. max_element (hs ! i) = Some (v, c) \<and> svs ! i = of_nat c)"
proof (induction hs arbitrary: svs)
  case Nil
  then show ?case by simp
next
  case (Cons h hs)
  from Cons.prems obtain v c rest where m: "max_element h = Some (v, c)"
    and rest: "pick_split_values hs = Inr rest" and svs: "svs = of_nat c # rest"
    by (auto split: option.splits sum.splits)
  from Cons.IH [OF rest] m show ?case
    by (auto simp: svs nth_Cons split: nat.splits)
qed

text \<open>
  Whatever the input, each split value \<open>_range_cluster\<close> computes is a count: the
  largest count of the corresponding histogram of samples, converted to the value type.
\<close>

theorem split_values_hold_counts:
  assumes "split_values_of cluster_count input_left input_right = Inr split_values"
  shows "\<exists>sample_values.
           sample_histograms cluster_count input_left input_right = Inr sample_values
           \<and> length split_values = length sample_values
           \<and> (\<forall>i < length sample_values. \<exists>v c.
                 (v, c) \<in> set (sample_values ! i)
                 \<and> (\<forall>(v', c') \<in> set (sample_values ! i). c' \<le> c)
                 \<and> split_values ! i = of_nat c)"
proof -
  from assms obtain hs where hs: "sample_histograms cluster_count input_left input_right = Inr hs"
    and sv: "pick_split_values hs = Inr split_values"
    by (auto simp: split_values_of_def split: sum.splits)
  from pick_split_values_counts [OF sv] have len: "length split_values = length hs"
    and each: "\<forall>i < length hs. \<exists>v c. max_element (hs ! i) = Some (v, c) \<and> split_values ! i = of_nat c"
    by simp_all
  have "\<exists>v c. (v, c) \<in> set (hs ! i) \<and> (\<forall>(v', c') \<in> set (hs ! i). c' \<le> c)
              \<and> split_values ! i = of_nat c" if "i < length hs" for i
  proof -
    from each that obtain v c where m: "max_element (hs ! i) = Some (v, c)"
      and s: "split_values ! i = of_nat c" by blast
    from max_element_Some [OF m] s show ?thesis by blast
  qed
  with hs len show ?thesis by blast
qed

text \<open>
  An instance: the tables \<open>[10, 20, 30]\<close> and \<open>[40, 50]\<close> with two clusters.
\<close>

theorem split_values_hold_counts_witness:
  "\<exists>sample_values.
     sample_histograms 2 (materialize True [[10, 20, 30]]) (materialize True [[40, 50]])
       = Inr sample_values
     \<and> length [1 :: int32_t] = length sample_values
     \<and> (\<forall>i < length sample_values. \<exists>v c.
           (v, c) \<in> set (sample_values ! i)
           \<and> (\<forall>(v', c') \<in> set (sample_values ! i). c' \<le> c)
           \<and> [1 :: int32_t] ! i = of_nat c)"
proof -
  have "split_values_of 2 (materialize True [[10, 20, 30]]) (materialize True [[40, 50]]) = Inr [1]"
    by (simp add: split_values_of_def sample_histograms_def materialize_def materialize_chunk_def
        enumerate_eq_zip f32_eval upt_rec [of 0])
  from split_values_hold_counts [OF this] show ?thesis .
qed


subsection \<open>Range clusters are ordered, returned clusters are sorted\<close>

text \<open>
  Range clustering orders the clusters, whatever the split values are: a record of a
  cluster is strictly smaller than every record of a later cluster of the same side.
\<close>

theorem range_clusters_ordered:
  assumes "range_cluster cluster_count schedule_left schedule_right input_left input_right
           = Inr (output_left, output_right)"
    and "output_table = output_left \<or> output_table = output_right"
    and "i < j" "j < length output_table"
    and "r \<in> set (output_table ! i)" "r' \<in> set (output_table ! j)"
  shows "sint (value_of r) < sint (value_of r')"
proof -
  from assms(1) obtain sv
    where sv: "split_values_of cluster_count input_left input_right = Inr sv"
      and l: "cluster cluster_count schedule_left input_left (range_clusterer cluster_count sv)
              = Inr output_left"
      and r: "cluster cluster_count schedule_right input_right (range_clusterer cluster_count sv)
              = Inr output_right"
    by (auto simp: range_cluster_def split: sum.splits)
  note len = split_values_of_Inr [OF sv]
  from assms(2) cluster_Inr [OF l] cluster_Inr [OF r]
  have size: "length output_table = unat cluster_count"
    and placed: "well_placed (range_clusterer cluster_count sv) output_table"
    by auto
  from assms(3,4) size len(1) have i: "i < length sv"
    by (simp add: len(2) unat_minus_one)
  from placed assms(3-6)
  have ci: "range_clusterer cluster_count sv (value_of r) = Inr i"
    and cj: "range_clusterer cluster_count sv (value_of r') = Inr j"
    by (simp_all add: well_placed_def)
  from range_clusterer_loop_first [OF len(2), of "value_of r" 0] ci i
  have "sint (value_of r) \<le> sint (sv ! i)"
    by (auto simp: range_clusterer_def split: if_splits)
  moreover from range_clusterer_loop_first [OF len(2), of "value_of r'" 0] cj assms(3)
  have "\<not> sint (value_of r') \<le> sint (sv ! i)"
    by (auto simp: range_clusterer_def)
  ultimately show ?thesis by simp
qed


text \<open>
  Every cluster \<open>execute\<close> returns is sorted by value.
\<close>

theorem execute_clusters_sorted:
  assumes "execute debug schedule_left schedule_right this = Inr (output_left, output_right)"
    and "c \<in> set output_left \<union> set output_right"
  shows "sorted (map (\<lambda>r. sint (value_of r)) c)"
proof -
  from assms(1) obtain clusters_left clusters_right
    where c: "clustered schedule_left schedule_right this = Inr (clusters_left, clusters_right)"
    by (auto simp: execute_clustered split: sum.splits)
  from execute_of_clustered [OF c, of debug] assms(1)
  have "output_left = sort_clusters clusters_left" "output_right = sort_clusters clusters_right"
    by simp_all
  with assms(2) show ?thesis by (auto simp: sort_clusters_def)
qed


subsection \<open>The returned records are those of the input\<close>

lemma mset_concat_update:
  assumes "c < length out"
  shows "mset (concat (out[c := out ! c @ [e]])) = add_mset e (mset (concat out))"
proof -
  have "out = take c out @ out ! c # drop (Suc c) out"
    using assms by (rule id_take_nth_drop)
  then have "mset (concat out)
      = mset (concat (take c out)) + mset (out ! c) + mset (concat (drop (Suc c) out))"
    by (metis concat.simps(2) concat_append mset_append union_assoc)
  moreover have "out[c := out ! c @ [e]] = take c out @ (out ! c @ [e]) # drop (Suc c) out"
    using assms by (rule upd_conv_take_nth_drop)
  then have "mset (concat (out[c := out ! c @ [e]]))
      = mset (concat (take c out)) + add_mset e (mset (out ! c)) + mset (concat (drop (Suc c) out))"
    by simp
  ultimately show ?thesis by simp
qed

lemma mset_concat_take_entry:
  assumes "j < length jobs" "jobs ! j = e # es"
  shows "mset (concat jobs) = add_mset e (mset (concat (jobs[j := es])))"
proof -
  have "jobs = take j jobs @ (e # es) # drop (Suc j) jobs"
    using assms by (metis id_take_nth_drop)
  then have "mset (concat jobs)
      = mset (concat (take j jobs)) + add_mset e (mset es) + mset (concat (drop (Suc j) jobs))"
    by (metis concat.simps(2) concat_append mset.simps(2) mset_append union_assoc)
  moreover have "jobs[j := es] = take j jobs @ es # drop (Suc j) jobs"
    using assms(1) by (rule upd_conv_take_nth_drop)
  then have "mset (concat (jobs[j := es]))
      = mset (concat (take j jobs)) + mset es + mset (concat (drop (Suc j) jobs))"
    by simp
  ultimately show ?thesis by simp
qed

lemma push_back_cluster_mset:
  assumes "push_back_cluster f e out = Inr out'"
  shows "mset (concat out') = add_mset e (mset (concat out))"
proof -
  from assms obtain c where "c < length out" "out' = out[c := out ! c @ [e]]"
    by (auto simp: push_back_cluster_def split: sum.splits if_splits)
  then show ?thesis by (simp add: mset_concat_update)
qed

lemma run_job_mset:
  "run_job f job out = Inr out' \<Longrightarrow> mset (concat out') = mset (concat out) + mset job"
proof (induction job arbitrary: out)
  case Nil
  then show ?case by simp
next
  case (Cons e es)
  from Cons.prems obtain mid where mid: "push_back_cluster f e out = Inr mid"
    and rest: "run_job f es mid = Inr out'"
    by (auto split: sum.splits)
  from push_back_cluster_mset [OF mid] Cons.IH [OF rest] show ?case by simp
qed

lemma finish_jobs_mset:
  "finish_jobs f jobs out = Inr out' \<Longrightarrow>
     mset (concat out') = mset (concat out) + mset (concat jobs)"
proof (induction jobs arbitrary: out)
  case Nil
  then show ?case by simp
next
  case (Cons job jobs)
  from Cons.prems obtain mid where mid: "run_job f job out = Inr mid"
    and rest: "finish_jobs f jobs mid = Inr out'"
    by (auto split: sum.splits)
  from run_job_mset [OF mid] Cons.IH [OF rest] show ?case by simp
qed

lemma run_jobs_mset:
  "run_jobs f schedule jobs out = Inr out' \<Longrightarrow>
     mset (concat out') = mset (concat out) + mset (concat jobs)"
proof (induction schedule arbitrary: jobs out)
  case Nil
  then show ?case using finish_jobs_mset by simp
next
  case (Cons j schedule)
  show ?case
  proof (cases "j < length jobs")
    case False
    with Cons.prems have "run_jobs f schedule jobs out = Inr out'" by simp
    from Cons.IH [OF this] show ?thesis .
  next
    case True
    show ?thesis
    proof (cases "jobs ! j")
      case Nil
      with True Cons.prems have "run_jobs f schedule jobs out = Inr out'" by simp
      from Cons.IH [OF this] show ?thesis .
    next
      case (Cons e es)
      with True Cons.prems obtain mid where mid: "push_back_cluster f e out = Inr mid"
        and rest: "run_jobs f schedule (jobs[j := es]) mid = Inr out'"
        by (auto split: sum.splits)
      from push_back_cluster_mset [OF mid] Cons.IH [OF rest] mset_concat_take_entry [OF True Cons]
      show ?thesis by simp
    qed
  qed
qed

lemma cluster_mset:
  assumes "cluster cluster_count schedule input_chunks f = Inr output_table"
  shows "mset (concat output_table) = mset (concat input_chunks)"
  using run_jobs_mset [of f schedule input_chunks "replicate (unat cluster_count) []" output_table]
    assms
  by (simp add: cluster_def)

lemma sort_clusters_mset: "mset (concat (sort_clusters clusters)) = mset (concat clusters)"
  by (induction clusters) (simp_all add: sort_clusters_def)

lemma clustered_mset:
  assumes "clustered schedule_left schedule_right this = Inr (clusters_left, clusters_right)"
  shows "mset (concat clusters_left)
           = mset (concat (materialize (\<not> equi_case this) (input_table_left this)))
       \<and> mset (concat clusters_right)
           = mset (concat (materialize (\<not> equi_case this) (input_table_right this)))"
proof -
  consider (concat) "cluster_count_of this = 1"
    | (radix) "cluster_count_of this \<noteq> 1" "equi_case this"
    | (range) "cluster_count_of this \<noteq> 1" "\<not> equi_case this" by blast
  then show ?thesis
  proof cases
    case concat
    with assms show ?thesis
      by (auto simp: clustered_def Let_def concatenate_chunks_def)
  next
    case radix
    with assms have
      "cluster (cluster_count_of this) schedule_left (materialize False (input_table_left this))
         (radix_clusterer (cluster_count_of this)) = Inr clusters_left"
      "cluster (cluster_count_of this) schedule_right (materialize False (input_table_right this))
         (radix_clusterer (cluster_count_of this)) = Inr clusters_right"
      by (auto simp: clustered_def Let_def radix_cluster_def split: sum.splits)
    from cluster_mset [OF this(1)] cluster_mset [OF this(2)] radix show ?thesis by simp
  next
    case range
    with assms obtain sv where
      "cluster (cluster_count_of this) schedule_left (materialize True (input_table_left this))
         (range_clusterer (cluster_count_of this) sv) = Inr clusters_left"
      "cluster (cluster_count_of this) schedule_right (materialize True (input_table_right this))
         (range_clusterer (cluster_count_of this) sv) = Inr clusters_right"
      by (auto simp: clustered_def Let_def range_cluster_def split: sum.splits)
    from cluster_mset [OF this(1)] cluster_mset [OF this(2)] range show ?thesis by simp
  qed
qed

text \<open>
  \<open>execute\<close> returns the records of the materialized columns, each as often as it
  occurs there: clustering and sorting only move records.
\<close>

theorem execute_preserves_records:
  assumes "execute debug schedule_left schedule_right this = Inr (output_left, output_right)"
  shows "mset (concat output_left)
           = mset (concat (materialize (\<not> equi_case this) (input_table_left this)))
       \<and> mset (concat output_right)
           = mset (concat (materialize (\<not> equi_case this) (input_table_right this)))"
proof -
  from assms obtain clusters_left clusters_right
    where c: "clustered schedule_left schedule_right this = Inr (clusters_left, clusters_right)"
    by (auto simp: execute_clustered split: sum.splits)
  from execute_of_clustered [OF c, of debug] assms
  have "output_left = sort_clusters clusters_left" "output_right = sort_clusters clusters_right"
    by simp_all
  with clustered_mset [OF c] show ?thesis by (simp add: sort_clusters_mset)
qed

subsection \<open>Bounds of the single precision quotient\<close>

lemma bit_length_bounds:
  "0 < n \<Longrightarrow> 2 ^ (bit_length n - 1) \<le> n \<and> n < 2 ^ bit_length n"
proof (induction n rule: bit_length.induct)
  case (1 n)
  show ?case
  proof (cases "n div 2 = 0")
    case True
    with "1.prems" have "n = 1" by (simp add: div_eq_0_iff) 
    then show ?thesis by (simp add: bit_length.simps [of "Suc 0"] bit_length.simps [of 0])
  next
    case False
    with "1.IH" "1.prems" have IH: "2 ^ (bit_length (n div 2) - 1) \<le> n div 2"
      "n div 2 < 2 ^ bit_length (n div 2)" by simp_all
    from False have pos: "0 < bit_length (n div 2)"
      by (simp add: bit_length.simps [of "n div 2"])
    have len: "bit_length n = Suc (bit_length (n div 2))"
      using "1.prems" by (simp add: bit_length.simps [of n])
    have "2 ^ (bit_length n - 1) = 2 * 2 ^ (bit_length (n div 2) - 1)"
      using pos by (simp add: len flip: power_Suc)
    also have "\<dots> \<le> 2 * (n div 2)" using IH(1) by simp
    also have "\<dots> \<le> n" by simp
    finally have lower: "2 ^ (bit_length n - 1) \<le> n" .
    have "n < 2 * (n div 2 + 1)" by presburger
    also have "\<dots> \<le> 2 * 2 ^ bit_length (n div 2)" using IH(2) by simp
    finally have "n < 2 ^ bit_length n" by (simp add: len)
    with lower show ?thesis by simp
  qed
qed

lemma bit_length_le:
  assumes "n < 2 ^ w"
  shows "bit_length n \<le> w"
proof (cases "n = 0")
  case True
  then show ?thesis by (simp add: bit_length.simps [of 0])
next
  case False
  with bit_length_bounds [of n] have "2 ^ (bit_length n - 1) \<le> n" by simp
  with assms have "(2 :: nat) ^ (bit_length n - 1) < 2 ^ w" by linarith
  then have "bit_length n - 1 < w"
    using power_less_imp_less_exp [of 2 "bit_length n - 1" w] by simp
  then show ?thesis by simp
qed

lemma round_half_even_bounds:
  assumes "0 < den"
  shows "2 * den * round_half_even num den \<le> 2 * num + den"
    and "2 * num \<le> 2 * den * round_half_even num den + den"
proof -
  let ?q = "num div den" and ?r = "num mod den"
  have num: "num = den * ?q + ?r" by simp
  have r: "?r < den" using assms by simp
  have q: "2 * den * ?q + 2 * ?r = 2 * num"
    by (metis num distrib_left mult.assoc)
  consider "2 * ?r < den" | "den < 2 * ?r" | "2 * ?r = den" by linarith
  then have "2 * den * round_half_even num den \<le> 2 * num + den
      \<and> 2 * num \<le> 2 * den * round_half_even num den + den"
  proof cases
    case 1
    then have "round_half_even num den = ?q" by (simp add: round_half_even_def Let_def)
    with 1 q show ?thesis by simp
  next
    case 2
    then have "round_half_even num den = ?q + 1" by (simp add: round_half_even_def Let_def)
    with 2 q r show ?thesis by (simp add: algebra_simps)
  next
    case 3
    then have "round_half_even num den = ?q \<or> round_half_even num den = ?q + 1"
      by (simp add: round_half_even_def Let_def)
    with 3 q r show ?thesis by (auto simp: algebra_simps)
  qed
  then show "2 * den * round_half_even num den \<le> 2 * num + den"
    and "2 * num \<le> 2 * den * round_half_even num den + den" by simp_all
qed

lemma round_half_even_upper:
  assumes "0 < den"
  shows "real (round_half_even num den) \<le> real num / real den + 1 / 2"
proof -
  from round_half_even_bounds(1) [OF assms, of num]
  have "real (2 * den * round_half_even num den) \<le> real (2 * num + den)"
    by (simp only: of_nat_le_iff)
  then have "2 * real den * real (round_half_even num den) \<le> 2 * real num + real den"
    by simp
  moreover have "0 < real den" using assms by simp
  ultimately show ?thesis by (simp add: field_simps)
qed

lemma f32_of_nat_upper: "real (f32_of_nat n) \<le> real n * (1 + 1 / 2 ^ 24)"
proof (cases "bit_length n \<le> 24")
  case True
  then show ?thesis by (simp add: f32_of_nat_def field_simps)
next
  case False
  define e where "e = bit_length n - 24"
  from False have e: "0 < e" "bit_length n - 1 = e - 1 + 24" by (simp_all add: e_def)
  from False have "0 < n" by (cases "n = 0") (simp_all add: bit_length.simps [of 0])
  with bit_length_bounds [of n] e(2) have "2 ^ (e - 1 + 24) \<le> n" by simp
  then have lower: "(2 :: real) ^ (e - 1) * 2 ^ 24 \<le> real n"
    by (metis of_nat_le_iff of_nat_numeral of_nat_power power_add)
  have "f32_of_nat n = round_half_even n (2 ^ e) * 2 ^ e"
    using False by (simp add: f32_of_nat_def e_def Let_def)
  moreover have "2 * 2 ^ e * round_half_even n (2 ^ e) \<le> 2 * n + 2 ^ e"
    by (rule round_half_even_bounds(1)) simp
  ultimately have "2 * f32_of_nat n \<le> 2 * n + 2 ^ e" by (simp add: mult.commute mult.left_commute)
  then have "2 * real (f32_of_nat n) \<le> 2 * real n + 2 ^ e"
    by (metis (mono_tags, opaque_lifting) of_nat_le_iff of_nat_add of_nat_mult of_nat_numeral of_nat_power)
  moreover have "(2 :: real) ^ e = 2 * 2 ^ (e - 1)"
    using e(1) by (cases e) simp_all
  ultimately have "real (f32_of_nat n) \<le> real n + 2 ^ (e - 1)" by simp
  also have "\<dots> \<le> real n + real n / 2 ^ 24" using lower by (simp add: field_simps)
  finally show ?thesis by (simp add: field_simps)
qed

lemma powi_nonneg: "0 \<le> e \<Longrightarrow> (2 :: real) powi e = 2 ^ nat e"
  by (simp add: power_int_def)

lemma powi_neg: "e < 0 \<Longrightarrow> (2 :: real) powi e = 1 / 2 ^ nat (- e)"
  by (simp add: power_int_def field_simps)

lemma f32_to_size_t_le: "real (f32_to_size_t (m, e)) \<le> real m * 2 powi e"
proof (cases "0 \<le> e")
  case True
  then show ?thesis by (simp add: f32_to_size_t_def powi_nonneg)
next
  case False
  then have "real (m div 2 ^ nat (- e)) \<le> real m / real (2 ^ nat (- e))"
    by (intro of_nat_div_le_of_nat)
  with False show ?thesis by (simp add: f32_to_size_t_def powi_neg)
qed

lemma f32_div_upper:
  assumes "0 < a" "0 < b"
  shows "real (f32_to_size_t (f32_div a b)) \<le> real a / real b * (1 + 1 / 2 ^ 24)"
proof -
  define e0 where "e0 = int (bit_length a) - int (bit_length b) - 24"
  define S where "S e = real a / real b / 2 powi e" for e :: int
  define Q where "Q e = (if 0 \<le> e then a div (b * 2 ^ nat e) else (a * 2 ^ nat (- e)) div b)"
    for e :: int
  define R where "R e = (if 0 \<le> e then round_half_even a (b * 2 ^ nat e)
                         else round_half_even (a * 2 ^ nat (- e)) b)" for e :: int
  define e where "e = (if Q e0 < 2 ^ 24 then e0 else e0 + 1)"
  have ab: "0 < real a" "0 < real b" using assms by simp_all
  have S_pos: "0 < S e" for e using ab by (simp add: S_def)
  have div: "f32_div a b = (R e, e)"
    using assms by (simp add: f32_div_def Let_def e_def Q_def R_def e0_def)
  have S_nonneg: "S e = real a / (real b * 2 ^ nat e)" if "0 \<le> e" for e
    using that by (simp add: S_def powi_nonneg)
  have S_neg: "S e = real a * 2 ^ nat (- e) / real b" if "e < 0" for e
    using that by (simp add: S_def powi_neg)
  have Q_le: "real (Q e) \<le> S e" for e
  proof (cases "0 \<le> e")
    case True
    have "real (a div (b * 2 ^ nat e)) \<le> real a / real (b * 2 ^ nat e)"
      by (rule of_nat_div_le_of_nat)
    with True show ?thesis by (simp add: Q_def S_nonneg)
  next
    case False
    have "real ((a * 2 ^ nat (- e)) div b) \<le> real (a * 2 ^ nat (- e)) / real b"
      by (rule of_nat_div_le_of_nat)
    with False show ?thesis by (simp add: Q_def S_neg)
  qed
  have R_le: "real (R e) \<le> S e + 1 / 2" for e
  proof (cases "0 \<le> e")
    case True
    have "real (round_half_even a (b * 2 ^ nat e)) \<le> real a / real (b * 2 ^ nat e) + 1 / 2"
      using assms(2) by (intro round_half_even_upper) simp
    with True show ?thesis by (simp add: R_def S_nonneg)
  next
    case False
    have "real (round_half_even (a * 2 ^ nat (- e)) b) \<le> real (a * 2 ^ nat (- e)) / real b + 1 / 2"
      using assms(2) by (intro round_half_even_upper)
    with False show ?thesis by (simp add: R_def S_neg)
  qed
  have N0: "2 ^ 23 \<le> S e0"
  proof -
    from bit_length_bounds [OF assms(1)] have "2 ^ (bit_length a - 1) \<le> a" by simp
    moreover from assms(1) have "0 < bit_length a" by (simp add: bit_length.simps [of a])
    ultimately have "2 ^ bit_length a \<le> 2 * a"
      by (cases "bit_length a") simp_all
    then have a: "(2 :: real) ^ bit_length a \<le> 2 * real a"
      by (metis of_nat_le_iff of_nat_mult of_nat_numeral of_nat_power)
    from bit_length_bounds [OF assms(2)] have "b < 2 ^ bit_length b" by simp
    then have b: "real b < 2 ^ bit_length b"
      by (metis of_nat_less_iff of_nat_numeral of_nat_power)
    have "e0 = int (bit_length a) - int (bit_length b + 24)" by (simp add: e0_def)
    moreover have "(2 :: real) powi (int (bit_length a) - int (bit_length b + 24))
        = 2 powi int (bit_length a) / 2 powi int (bit_length b + 24)"
      by (rule power_int_diff) simp
    ultimately have "(2 :: real) powi e0 = 2 powi int (bit_length a) / 2 powi int (bit_length b + 24)"
      by (simp only:)
    then have p: "(2 :: real) powi e0 = 2 ^ bit_length a / (2 ^ bit_length b * 2 ^ 24)"
      by (simp only: power_int_of_nat power_add)
    have "2 ^ 23 * (2 :: real) ^ bit_length a * real b \<le> 2 ^ 23 * (2 * real a) * 2 ^ bit_length b"
      using a b ab by (intro mult_mono) simp_all
    then have "2 ^ 23 * ((2 :: real) ^ bit_length a / (2 ^ bit_length b * 2 ^ 24)) \<le> real a / real b"
      using ab by (simp add: field_simps)
    then have "2 ^ 23 * 2 powi e0 \<le> real a / real b" by (simp only: p)
    moreover have "0 < (2 :: real) powi e0" by simp
    ultimately show ?thesis by (simp only: S_def pos_le_divide_eq)
  qed
  have N: "2 ^ 23 \<le> S e"
  proof (cases "Q e0 < 2 ^ 24")
    case True
    with N0 show ?thesis by (simp add: e_def)
  next
    case False
    then have "(2 :: nat) ^ 24 \<le> Q e0" by simp
    then have "(2 :: real) ^ 24 \<le> real (Q e0)"
      by (metis of_nat_le_iff of_nat_numeral of_nat_power)
    with Q_le [of e0] have "2 ^ 24 \<le> S e0" by simp
    moreover have "S (e0 + 1) = S e0 / 2"
      by (simp add: S_def power_int_add)
    ultimately show ?thesis using False by (simp add: e_def)
  qed
  have "real (f32_to_size_t (f32_div a b)) \<le> real (R e) * 2 powi e"
    unfolding div by (rule f32_to_size_t_le)
  also have "\<dots> \<le> (S e + 1 / 2) * 2 powi e"
    using R_le [of e] by (intro mult_right_mono) simp_all
  also have "\<dots> = real a / real b + 2 powi e / 2"
    by (simp add: S_def field_simps)
  also have "2 powi e = real a / real b / S e"
    using ab by (simp add: S_def field_simps)
  also have "real a / real b + real a / real b / S e / 2 \<le> real a / real b + real a / real b / 2 ^ 23 / 2"
    using N ab S_pos [of e] by (intro add_left_mono divide_right_mono divide_left_mono) simp_all
  finally show ?thesis by (simp add: field_simps)
qed

lemma f32_of_nat_pos:
  assumes "0 < n"
  shows "0 < f32_of_nat n"
proof (cases "bit_length n \<le> 24")
  case True
  with assms show ?thesis by (simp add: f32_of_nat_def)
next
  case False
  define e where "e = bit_length n - 24"
  from bit_length_bounds [OF assms] have "2 ^ (bit_length n - 1) \<le> n" by simp
  moreover from False have "bit_length n - 1 = e + 23" by (simp add: e_def)
  ultimately have n: "2 ^ e * 2 ^ 23 \<le> n" by (simp add: power_add)
  have "(2 :: nat) ^ e < 2 ^ e * 2 ^ 23" by simp
  from this n have lt: "2 ^ e < n" by (rule less_le_trans)
  from round_half_even_bounds(2) [of "2 ^ e" n]
  have "2 * n \<le> 2 * 2 ^ e * round_half_even n (2 ^ e) + 2 ^ e" by simp
  with lt have "0 < round_half_even n (2 ^ e)" by (cases "round_half_even n (2 ^ e)") simp_all
  with False show ?thesis by (simp add: f32_of_nat_def Let_def e_def)
qed

lemma f32_of_nat_exact: "n < 2 ^ 24 \<Longrightarrow> f32_of_nat n = n"
  using bit_length_le [of n 24] by (simp add: f32_of_nat_def)

lemma sample_index_upper:
  assumes k: "unat k < 2 ^ 24" "0 < unat k"
  shows "real (sample_index k n c)
           \<le> real n * real (c + 1) / real (unat k) * ((1 + 1 / 2 ^ 24) * (1 + 1 / 2 ^ 24))"
proof -
  define p where "p = (n * (c + 1)) mod 2 ^ 64"
  define a where "a = f32_of_nat p"
  define K where "K = unat k"
  have K: "K < 2 ^ 24" "0 < K" using k by (simp_all add: K_def)
  have idx: "sample_index k n c = f32_to_size_t (f32_div a K)"
    using K(1) unfolding K_def by (simp add: sample_index_def a_def p_def f32_of_nat_exact)
  have "p \<le> n * (c + 1)" by (simp add: p_def)
  then have p: "real p \<le> real n * real (c + 1)"
    by (metis of_nat_le_iff of_nat_mult)
  have "real (sample_index k n c)
          \<le> real n * real (c + 1) / real K * ((1 + 1 / 2 ^ 24) * (1 + 1 / 2 ^ 24))"
  proof (cases "p = 0")
    case True
    then have "a = 0" by (simp add: a_def f32_of_nat_def bit_length.simps [of 0])
    then have "sample_index k n c = 0" by (simp add: idx f32_div_def f32_to_size_t_def)
    then show ?thesis by simp
  next
    case False
    then have a_pos: "0 < a" unfolding a_def by (intro f32_of_nat_pos) simp
    have "real a \<le> real p * (1 + 1 / 2 ^ 24)"
      unfolding a_def by (rule f32_of_nat_upper)
    also have "\<dots> \<le> real n * real (c + 1) * (1 + 1 / 2 ^ 24)"
      using p by (intro mult_right_mono) simp_all
    finally have a_le: "real a \<le> real n * real (c + 1) * (1 + 1 / 2 ^ 24)" .
    have "real (sample_index k n c) \<le> real a / real K * (1 + 1 / 2 ^ 24)"
      using f32_div_upper [OF a_pos K(2)] by (simp add: idx)
    also have "\<dots> \<le> real n * real (c + 1) * (1 + 1 / 2 ^ 24) / real K * (1 + 1 / 2 ^ 24)"
      using a_le by (intro mult_right_mono divide_right_mono) simp_all
    finally show ?thesis by (simp add: field_simps)
  qed
  then show ?thesis by (simp only: K_def)
qed

text \<open>
  Up to \<open>2 ^ 23\<close> clusters the single precision arithmetic of \<open>_pick_sample_values\<close>
  is harmless: on a non-empty chunk the sampled index of every cluster id below
  \<open>cluster_count - 1\<close> is inside the chunk.
\<close>

theorem sample_index_in_bounds:
  assumes "0 < n" and "c + 1 < unat k" and "unat k \<le> 2 ^ 23"
  shows "sample_index k n c < n"
proof -
  define K where "K = unat k"
  have K: "0 < K" "K < 2 ^ 24" "c + 1 \<le> K - 1" "K \<le> 2 ^ 23"
    using assms by (simp_all add: K_def)
  have "real (sample_index k n c)
          \<le> real n * real (c + 1) / real K * ((1 + 1 / 2 ^ 24) * (1 + 1 / 2 ^ 24))"
    unfolding K_def using K(2,1) unfolding K_def by (rule sample_index_upper)
  also have "\<dots> \<le> real n * real (K - 1) / real K * ((1 + 1 / 2 ^ 24) * (1 + 1 / 2 ^ 24))"
    using K(3) by (intro mult_right_mono divide_right_mono mult_left_mono) simp_all
  also have "\<dots> = real n * ((1 - 1 / real K) * ((1 + 1 / 2 ^ 24) * (1 + 1 / 2 ^ 24)))"
    using K(1) by (simp add: field_simps of_nat_diff)
  also have "\<dots> < real n * 1"
  proof (intro mult_strict_left_mono)
    have "real K \<le> 2 ^ 23" using K(4) by (metis of_nat_le_iff of_nat_numeral of_nat_power)
    then have "1 / 2 ^ 23 \<le> 1 / real K" using K(1) by (intro divide_left_mono) simp_all
    then have "(1 - 1 / real K) * ((1 + 1 / 2 ^ 24) * (1 + 1 / 2 ^ 24))
                 \<le> (1 - 1 / 2 ^ 23) * ((1 + 1 / 2 ^ 24) * (1 + 1 / 2 ^ 24))"
      by (intro mult_right_mono) simp_all
    also have "\<dots> < 1" by simp
    finally show "(1 - 1 / real K) * ((1 + 1 / 2 ^ 24) * (1 + 1 / 2 ^ 24)) < 1" .
  next
    show "0 < real n" using assms(1) by simp
  qed
  finally show ?thesis by simp
qed


subsection \<open>Sampling and execute return on the range path\<close>

lemma increment_not_empty: "increment v h \<noteq> []"
  by (cases h) (auto split: if_splits)

lemma pick_chunk_samples_total:
  assumes "\<forall>c \<in> set cluster_ids.
             c < length sample_values
             \<and> sample_index cluster_count (length chunk_values) c < length chunk_values"
  shows "\<exists>sample_values'.
           pick_chunk_samples cluster_count chunk_values cluster_ids sample_values
             = Inr sample_values'
           \<and> length sample_values' = length sample_values
           \<and> (\<forall>c < length sample_values.
                 sample_values ! c \<noteq> [] \<or> c \<in> set cluster_ids \<longrightarrow> sample_values' ! c \<noteq> [])"
  using assms
proof (induction cluster_ids arbitrary: sample_values)
  case Nil
  then show ?case by simp
next
  case (Cons cluster_id cluster_ids)
  let ?index = "sample_index cluster_count (length chunk_values) cluster_id"
  let ?next = "sample_values[cluster_id :=
                 increment (value_of (chunk_values ! ?index)) (sample_values ! cluster_id)]"
  from Cons.prems have ok: "cluster_id < length sample_values" "?index < length chunk_values"
    by simp_all
  from Cons.prems have "\<forall>c \<in> set cluster_ids.
             c < length ?next
             \<and> sample_index cluster_count (length chunk_values) c < length chunk_values"
    by simp
  from Cons.IH [OF this] obtain sample_values'
    where run: "pick_chunk_samples cluster_count chunk_values cluster_ids ?next = Inr sample_values'"
      and len: "length sample_values' = length sample_values"
      and filled: "\<forall>c < length sample_values.
                 ?next ! c \<noteq> [] \<or> c \<in> set cluster_ids \<longrightarrow> sample_values' ! c \<noteq> []"
    by auto
  have "sample_values' ! c \<noteq> []"
    if "c < length sample_values" "sample_values ! c \<noteq> [] \<or> c \<in> set (cluster_id # cluster_ids)"
    for c
  proof (cases "c = cluster_id")
    case True
    with ok(1) have "?next ! c \<noteq> []" by (simp add: increment_not_empty)
    with filled that(1) show ?thesis by blast
  next
    case False
    with that have "?next ! c \<noteq> [] \<or> c \<in> set cluster_ids" by auto
    with filled that(1) show ?thesis by blast
  qed
  with run len ok show ?case by (simp add: Let_def)
qed

lemma pick_sample_values_total:
  assumes "\<forall>chunk_values \<in> set table. \<forall>c < unat (cluster_count - 1).
             sample_index cluster_count (length chunk_values) c < length chunk_values"
    and "length sample_values = unat (cluster_count - 1)"
  shows "\<exists>sample_values'.
           pick_sample_values cluster_count sample_values table = Inr sample_values'
           \<and> length sample_values' = length sample_values
           \<and> (\<forall>c < length sample_values.
                 sample_values ! c \<noteq> [] \<or> table \<noteq> [] \<longrightarrow> sample_values' ! c \<noteq> [])"
  using assms
proof (induction table arbitrary: sample_values)
  case Nil
  then show ?case by simp
next
  case (Cons chunk_values chunks)
  from Cons.prems have "\<forall>c \<in> set [0 ..< unat (cluster_count - 1)].
             c < length sample_values
             \<and> sample_index cluster_count (length chunk_values) c < length chunk_values"
    by simp
  from pick_chunk_samples_total [OF this] obtain mid
    where mid: "pick_chunk_samples cluster_count chunk_values [0 ..< unat (cluster_count - 1)]
                  sample_values = Inr mid"
      and len: "length mid = length sample_values"
      and filled: "\<forall>c < length sample_values. mid ! c \<noteq> []"
    using Cons.prems(2) by auto
  from Cons.prems len have "\<forall>chunk_values \<in> set chunks. \<forall>c < unat (cluster_count - 1).
             sample_index cluster_count (length chunk_values) c < length chunk_values"
    and "length mid = unat (cluster_count - 1)"
    by simp_all
  from Cons.IH [OF this] obtain sample_values'
    where run: "pick_sample_values cluster_count mid chunks = Inr sample_values'"
      and len': "length sample_values' = length mid"
      and filled': "\<forall>c < length mid. mid ! c \<noteq> [] \<or> chunks \<noteq> [] \<longrightarrow> sample_values' ! c \<noteq> []"
    by auto
  from mid run len len' filled filled' show ?case by simp
qed

lemma pick_split_values_total:
  "\<forall>h \<in> set sample_values. h \<noteq> [] \<Longrightarrow> \<exists>split_values. pick_split_values sample_values = Inr split_values"
proof (induction sample_values)
  case Nil
  then show ?case by simp
next
  case (Cons h hs)
  then obtain x xs rest where "h = x # xs" "pick_split_values hs = Inr rest"
    by (cases h) auto
  then show ?case by simp
qed

lemma split_values_of_total:
  assumes "cluster_count \<noteq> 0"
    and "cluster_count = 1 \<or> input_left @ input_right \<noteq> []"
    and "\<forall>chunk_values \<in> set (input_left @ input_right). \<forall>c < unat (cluster_count - 1).
           sample_index cluster_count (length chunk_values) c < length chunk_values"
  shows "\<exists>split_values. split_values_of cluster_count input_left input_right = Inr split_values"
proof -
  let ?empty = "replicate (unat (cluster_count - 1)) ([] :: histogram)"
  from assms(3) have l: "\<forall>chunk_values \<in> set input_left. \<forall>c < unat (cluster_count - 1).
           sample_index cluster_count (length chunk_values) c < length chunk_values"
    and r: "\<forall>chunk_values \<in> set input_right. \<forall>c < unat (cluster_count - 1).
           sample_index cluster_count (length chunk_values) c < length chunk_values"
    by simp_all
  from pick_sample_values_total [OF l, of ?empty] obtain s1
    where s1: "pick_sample_values cluster_count ?empty input_left = Inr s1"
      and len1: "length s1 = unat (cluster_count - 1)"
      and filled1: "\<forall>c < unat (cluster_count - 1). input_left \<noteq> [] \<longrightarrow> s1 ! c \<noteq> []"
    by auto
  from pick_sample_values_total [OF r len1] obtain s2
    where s2: "pick_sample_values cluster_count s1 input_right = Inr s2"
      and len2: "length s2 = unat (cluster_count - 1)"
      and filled2: "\<forall>c < unat (cluster_count - 1). s1 ! c \<noteq> [] \<or> input_right \<noteq> [] \<longrightarrow> s2 ! c \<noteq> []"
    using len1 by auto
  have "\<forall>h \<in> set s2. h \<noteq> []"
  proof (cases "cluster_count = 1")
    case True
    with len2 show ?thesis by simp
  next
    case False
    with assms(2) have "input_left \<noteq> [] \<or> input_right \<noteq> []" by simp
    with filled1 filled2 have "\<forall>c < length s2. s2 ! c \<noteq> []" by (auto simp: len2)
    then show ?thesis by (auto simp: in_set_conv_nth)
  qed
  from pick_split_values_total [OF this] s1 s2 assms(1) show ?thesis
    by (auto simp: split_values_of_def sample_histograms_def)
qed

lemma materialize_empty: "materialize sort_chunks t = [] \<longleftrightarrow> t = []"
  by (simp add: materialize_def enumerate_eq_zip)

lemma materialize_chunk_lengths:
  assumes "chunk_values \<in> set (materialize sort_chunks t)"
  shows "\<exists>chunk \<in> set t. length chunk_values = length chunk"
proof -
  from assms obtain chunk_id chunk where "(chunk_id, chunk) \<in> set (enumerate 0 t)"
    and "chunk_values = materialize_chunk sort_chunks chunk_id chunk"
    by (auto simp: materialize_def)
  then show ?thesis by (auto simp: in_set_enumerate_eq)
qed

text \<open>
  On the range path \<open>execute\<close> returns, in every build and for every interleaving
  of the jobs, when the cluster count is at most \<open>2 ^ 23\<close> and, unless it is \<open>1\<close>,
  the two tables together have a chunk and no chunk is empty.
\<close>

theorem execute_range_returns:
  assumes "\<not> equi_case this"
    and "cluster_count_of this \<noteq> 0" "unat (cluster_count_of this) \<le> 2 ^ 23"
    and "cluster_count_of this = 1
         \<or> input_table_left this @ input_table_right this \<noteq> []
           \<and> (\<forall>chunk \<in> set (input_table_left this @ input_table_right this). chunk \<noteq> [])"
  shows "\<exists>output_left output_right.
           execute debug schedule_left schedule_right this = Inr (output_left, output_right)"
proof -
  let ?k = "cluster_count_of this"
  let ?left = "materialize True (input_table_left this)"
  let ?right = "materialize True (input_table_right this)"
  have "\<exists>clusters_left clusters_right.
          clustered schedule_left schedule_right this = Inr (clusters_left, clusters_right)"
  proof (cases "?k = 1")
    case True
    then show ?thesis by (simp add: clustered_def Let_def)
  next
    case False
    with assms(4) have tables: "input_table_left this @ input_table_right this \<noteq> []"
      and chunks: "\<forall>chunk \<in> set (input_table_left this @ input_table_right this). chunk \<noteq> []"
      by simp_all
    from tables have ne: "?k = 1 \<or> ?left @ ?right \<noteq> []"
      by (simp add: materialize_empty)
    have "sample_index ?k (length chunk_values) c < length chunk_values"
      if "chunk_values \<in> set (?left @ ?right)" "c < unat (?k - 1)" for chunk_values c
    proof -
      from that(1) materialize_chunk_lengths [of chunk_values True]
      obtain chunk where "chunk \<in> set (input_table_left this @ input_table_right this)"
        and "length chunk_values = length chunk"
        by auto
      with chunks have "0 < length chunk_values" by auto
      moreover from that(2) assms(2) have "c + 1 < unat ?k"
        by (simp add: unat_minus_one)
      ultimately show ?thesis using assms(3) by (rule sample_index_in_bounds)
    qed
    then have "\<forall>chunk_values \<in> set (?left @ ?right). \<forall>c < unat (?k - 1).
           sample_index ?k (length chunk_values) c < length chunk_values"
      by blast
    from split_values_of_total [OF assms(2) ne this] obtain split_values
      where "split_values_of ?k ?left ?right = Inr split_values" by blast
    from range_cluster_total [OF this] False assms(1) show ?thesis
      by (simp add: clustered_def Let_def)
  qed
  then obtain clusters_left clusters_right
    where "clustered schedule_left schedule_right this = Inr (clusters_left, clusters_right)"
    by blast
  from execute_of_clustered [OF this] show ?thesis by blast
qed


section \<open>The lazy accessors\<close>

lemma and_then_Inr [simp]: "and_then (Inr (x, s)) f = f x s"
  by (simp add: and_then_def)

lemma and_then_Inl [simp]: "and_then (Inl e) f = Inl e"
  by (simp add: and_then_def)

lemma has_statistics_literal [simp]:
  "has_statistics (ColumnStatistics cid d lo hi) lo hi d"
  by (simp add: has_statistics_def consistent_def statistics_def ColumnStatistics_def
      min_of_def max_of_def distinct_count_def)

lemma has_statistics_cases:
  assumes "has_statistics this lo hi d"
  obtains
    (cached) "min_opt this = Some lo" "max_opt this = Some hi"
  | (lazy) t where "min_opt this = None" "max_opt this = None" "table_ptr this = Some t"
      "aggregate_min_max t (column_id this) = Inr (lo, hi)"
  using assms
  by (auto simp: has_statistics_def consistent_def statistics_def min_of_def max_of_def
      update_min_max_def deref_def and_then_def split: option.splits sum.splits prod.splits)

lemma has_statistics_distinct_cases:
  assumes "has_statistics this lo hi d"
  obtains
    (cached) "distinct_count_opt this = Some d"
  | (lazy) t rows where "distinct_count_opt this = None" "table_ptr this = Some t"
      "aggregate_distinct t (column_id this) = Inr rows" "d = Finite (real rows)"
  using assms
  by (auto simp: has_statistics_def consistent_def statistics_def min_of_def max_of_def
      update_min_max_def deref_def and_then_def distinct_count_def update_distinct_count_def
      split: option.splits sum.splits prod.splits)

lemma has_statistics_distinct_count:
  assumes "has_statistics this lo hi d"
  shows "\<exists>s. distinct_count this = Inr (d, s)"
  using assms
  by (cases rule: has_statistics_distinct_cases)
    (auto simp: distinct_count_def update_distinct_count_def deref_def)

lemma has_statistics_fill_min_max:
  assumes "\<exists>s. distinct_count this = Inr (d, s)"
  shows "has_statistics (this\<lparr>min_opt := Some lo, max_opt := Some hi\<rparr>) lo hi d"
  using assms
  by (auto simp: has_statistics_def consistent_def statistics_def min_of_def max_of_def
      distinct_count_def update_distinct_count_def deref_def split: option.splits sum.splits)

lemma min_of_has_statistics:
  assumes "has_statistics this lo hi d"
  obtains this' where "min_of this = Inr (lo, this')" "has_statistics this' lo hi d"
    "column_id this' = column_id this"
proof -
  from assms show ?thesis
  proof (cases rule: has_statistics_cases)
    case cached
    with assms that [of this] show ?thesis by (simp add: min_of_def)
  next
    case (lazy t)
    let ?s = "this\<lparr>min_opt := Some lo, max_opt := Some hi\<rparr>"
    have "min_of this = Inr (lo, ?s)"
      using lazy by (simp add: min_of_def update_min_max_def deref_def)
    moreover have "has_statistics ?s lo hi d"
      by (rule has_statistics_fill_min_max [OF has_statistics_distinct_count [OF assms]])
    ultimately show ?thesis using that [of ?s] by simp
  qed
qed

lemma max_of_has_statistics:
  assumes "has_statistics this lo hi d"
  obtains this' where "max_of this = Inr (hi, this')" "has_statistics this' lo hi d"
    "column_id this' = column_id this"
proof -
  from assms show ?thesis
  proof (cases rule: has_statistics_cases)
    case cached
    with assms that [of this] show ?thesis by (simp add: max_of_def)
  next
    case (lazy t)
    let ?s = "this\<lparr>min_opt := Some lo, max_opt := Some hi\<rparr>"
    have "max_of this = Inr (hi, ?s)"
      using lazy by (simp add: max_of_def update_min_max_def deref_def)
    moreover have "has_statistics ?s lo hi d"
      by (rule has_statistics_fill_min_max [OF has_statistics_distinct_count [OF assms]])
    ultimately show ?thesis using that [of ?s] by simp
  qed
qed

lemma has_statistics_fill_distinct_count:
  assumes "has_statistics this lo hi d"
  shows "has_statistics (this\<lparr>distinct_count_opt := Some d\<rparr>) lo hi d"
  using assms
proof (cases rule: has_statistics_cases)
  case cached
  then show ?thesis
    by (simp add: has_statistics_def consistent_def statistics_def min_of_def max_of_def
        distinct_count_def)
next
  case (lazy t)
  then show ?thesis
    by (simp add: has_statistics_def consistent_def statistics_def min_of_def max_of_def
        update_min_max_def deref_def distinct_count_def)
qed

lemma distinct_count_has_statistics:
  assumes "has_statistics this lo hi d"
  obtains this' where "distinct_count this = Inr (d, this')" "has_statistics this' lo hi d"
    "column_id this' = column_id this"
proof -
  from assms show ?thesis
  proof (cases rule: has_statistics_distinct_cases)
    case cached
    with assms that [of this] show ?thesis by (simp add: distinct_count_def)
  next
    case (lazy t rows)
    let ?s = "this\<lparr>distinct_count_opt := Some d\<rparr>"
    have "distinct_count this = Inr (d, ?s)"
      using lazy by (simp add: distinct_count_def update_distinct_count_def deref_def)
    moreover have "has_statistics ?s lo hi d"
      by (rule has_statistics_fill_distinct_count [OF assms])
    ultimately show ?thesis using that [of ?s] by simp
  qed
qed

text \<open>All three accessors in a row, in any order, return the statistics.\<close>

lemma statistics_read:
  assumes "has_statistics this lo hi d"
  obtains s1 s2 s3 where
    "min_of this = Inr (lo, s1)" "max_of s1 = Inr (hi, s2)" "distinct_count s2 = Inr (d, s3)"
    "column_id s3 = column_id this" "has_statistics s3 lo hi d"
proof -
  from assms obtain s1 where 1: "min_of this = Inr (lo, s1)" "has_statistics s1 lo hi d"
    "column_id s1 = column_id this" by (rule min_of_has_statistics)
  from 1(2) obtain s2 where 2: "max_of s1 = Inr (hi, s2)" "has_statistics s2 lo hi d"
    "column_id s2 = column_id s1" by (rule max_of_has_statistics)
  from 2(2) obtain s3 where 3: "distinct_count s2 = Inr (d, s3)" "has_statistics s3 lo hi d"
    "column_id s3 = column_id s2" by (rule distinct_count_has_statistics)
  from 1 2 3 that show ?thesis by simp
qed


section \<open>Selectivity of \<open><\<close> on integer columns\<close>

lemma less_than_integral:
  assumes "has_statistics this lo hi d" "is_integral ct"
  shows "\<exists>this'. has_statistics this' lo hi d \<and>
    predicate_selectivity ct OpLessThan v v2 this =
      Inr (if v \<le> lo then (Finite 0, None)
           else (divide_by_float ct (sub ct v lo) (to_float ct (plus_one ct (sub ct hi lo))),
                 Some (ColumnStatistics (column_id this)
                         (fmul (divide_by_float ct (sub ct v lo)
                                     (to_float ct (plus_one ct (sub ct hi lo)))) d)
                         lo (minus_one ct v))),
           this')"
proof -
  from assms(1) obtain s1 s2 s3 where s:
    "min_of this = Inr (lo, s1)" "max_of s1 = Inr (hi, s2)" "distinct_count s2 = Inr (d, s3)"
    "column_id s3 = column_id this" "has_statistics s3 lo hi d"
    by (rule statistics_read)
  from assms(1) obtain s1' where s1': "min_of this = Inr (lo, s1')" "has_statistics s1' lo hi d"
    by (rule min_of_has_statistics)
  show ?thesis
  proof (cases "v \<le> lo")
    case True
    with s1' assms(2) show ?thesis
      by (intro exI [of _ s1']) simp
  next
    case False
    with s assms(2) show ?thesis
      by (intro exI [of _ s3]) (simp add: Let_def)
  qed
qed

lemma wrap_fits: "fits bits x \<Longrightarrow> wrap bits x = x"
  by (simp add: fits_def wrap_def signed_take_bit_int_eq_self)

lemma int32_type_simps [simp]:
  "is_integral int32_type" "sub int32_type a b = wrap 32 (a - b)"
  "plus_one int32_type a = wrap 32 (a + 1)" "minus_one int32_type a = wrap 32 (a - 1)"
  "to_float int32_type a = Finite (real_of_int a)"
  "divide_by_float int32_type a f = fdiv (Finite (real_of_int a)) f"
  "value_plus_one int32_type a = wrap 32 (a + 1)"
  by (simp_all add: int32_type_def)

lemma int64_type_simps [simp]:
  "is_integral int64_type" "sub int64_type a b = wrap 64 (a - b)"
  "plus_one int64_type a = wrap 64 (a + 1)" "minus_one int64_type a = wrap 64 (a - 1)"
  "to_float int64_type a = Finite (real_of_int a)"
  "divide_by_float int64_type a f = fdiv (Finite (real_of_int a)) f"
  "value_plus_one int64_type a = wrap 64 (a + 1)"
  by (simp_all add: int64_type_def)



section \<open>Statistics without a table\<close>

lemma cached_accessors:
  "distinct_count_opt this = Some d \<Longrightarrow> distinct_count this = Inr (d, this)"
  "min_opt this = Some lo \<Longrightarrow> min_of this = Inr (lo, this)"
  "max_opt this = Some hi \<Longrightarrow> max_of this = Inr (hi, this)"
  by (simp_all add: distinct_count_def min_of_def max_of_def)

lemma uncached_without_table:
  "table_ptr this = None \<Longrightarrow> distinct_count_opt this = None \<Longrightarrow> distinct_count this = Inl UB_NullDereference"
  "table_ptr this = None \<Longrightarrow> min_opt this = None \<Longrightarrow> min_of this = Inl UB_NullDereference"
  "table_ptr this = None \<Longrightarrow> max_opt this = None \<Longrightarrow> max_of this = Inl UB_NullDereference"
  by (simp_all add: distinct_count_def min_of_def max_of_def update_distinct_count_def update_min_max_def)

text \<open>
  C8. The claim is that a request for \<open>distinct_count\<close>, \<open>min\<close> or \<open>max\<close> fails with a
  configuration error when the table handle no longer refers to a live table. For
  statistics bound to a table (the constructor of lines 21 to 23, which caches
  nothing) whose table is gone, \<open>_table.lock()\<close> returns the null pointer;
  \<open>update_distinct_count\<close> and \<open>update_min_max\<close> do not test it and call
  \<open>table->column_name\<close> on it (lines 64 and 79). Each of the three accessors, and with
  them every estimate that reads a statistic, dereferences the null pointer instead of
  raising an error.
\<close>

theorem lazy_statistic_without_table:
  "distinct_count (ColumnStatistics_of_table cid None :: int column_statistics)
     = Inl UB_NullDereference
   \<and> min_of (ColumnStatistics_of_table cid None :: int column_statistics)
     = Inl UB_NullDereference
   \<and> max_of (ColumnStatistics_of_table cid None :: int column_statistics)
     = Inl UB_NullDereference
   \<and> predicate_selectivity int32_type OpEquals v v2 (ColumnStatistics_of_table cid None)
     = Inl UB_NullDereference"
  by (simp add: uncached_without_table ColumnStatistics_of_table_def and_then_def)

section \<open>The type assertion of the two-column estimate\<close>

text \<open>
  C3. The claim is that a two-column call fails with a type error when the argument
  has another column type than the receiver, and raises no such error when the types
  match. Line 234 asserts that the cast returned the null pointer. In a debug build a
  call with matching types (both \<open>int32_t\<close>) therefore fails the assertion, with the
  message that columns of different type cannot be compared, and a call with an
  argument of another type (\<open>float\<close>) passes it and dereferences the null pointer; a
  release build dereferences the null pointer as well.
\<close>

theorem two_column_assertion_inverted:
  "predicate_selectivity_columns True int32_type OpEquals
     (Int32Statistics (ColumnStatistics 1 (Finite 11) 5 15)) (ColumnStatistics 0 (Finite 11) 0 10)
   = Inl (AssertionFailed ''Cannot compare columns of different type'')
   \<and> predicate_selectivity_columns True int32_type OpEquals
     (FloatStatistics (ColumnStatistics 1 (Finite 11) 5 15)) (ColumnStatistics 0 (Finite 11) 0 10)
   = Inl UB_NullDereference
   \<and> predicate_selectivity_columns False int32_type OpEquals
     (FloatStatistics (ColumnStatistics 1 (Finite 11) 5 15)) (ColumnStatistics 0 (Finite 11) 0 10)
   = Inl UB_NullDereference"
  by (simp add: predicate_selectivity_columns_def int32_type_def ColumnStatistics_def
      cached_accessors)
subsection \<open>The two-column overload in general\<close>

text \<open>
  In a debug build the two-column overload rejects every argument of the receiver's
  column type, whatever the scan type and the statistics.
\<close>

theorem debug_build_rejects_same_type:
  assumes "dynamic_pointer_cast ct a = Some other"
  shows "predicate_selectivity_columns True ct scan a this
         = Inl (AssertionFailed ''Cannot compare columns of different type'')"
  using assms by (simp add: predicate_selectivity_columns_def)

text \<open>
  With an argument of another column type the two-column overload never returns an
  estimate, in either build.
\<close>

theorem other_type_never_returns:
  assumes "dynamic_pointer_cast ct a = None"
  shows "\<exists>e. predicate_selectivity_columns debug ct scan a this = Inl e"
  using assms
  by (cases "min_of this") (auto simp: predicate_selectivity_columns_def)


section \<open>The estimates as functions of the statistics\<close>









section \<open>Rounding to binary32 and binary64\<close>

text \<open>
  The exponent brackets the number, rounding to even is monotone and stays within half
  a unit, and so rounding to a format is monotone on the numbers that are not negative.
\<close>

lemma exponent_of_bounds:
  assumes "x \<noteq> 0"
  shows "2 powi exponent_of x \<le> \<bar>x\<bar>" and "\<bar>x\<bar> < 2 powi (exponent_of x + 1)"
proof -
  have "2 powi exponent_of x \<le> \<bar>x\<bar> \<and> \<bar>x\<bar> < 2 powi (exponent_of x + 1)"
  proof (cases "1 \<le> \<bar>x\<bar>")
    case True
    define n where "n = nat \<lfloor>\<bar>x\<bar>\<rfloor>"
    from True have fl: "1 \<le> \<lfloor>\<bar>x\<bar>\<rfloor>" by linarith
    then have "int n = \<lfloor>\<bar>x\<bar>\<rfloor>" unfolding n_def by linarith
    then have "real_of_int (int n) = real_of_int \<lfloor>\<bar>x\<bar>\<rfloor>" by (simp only:)
    then have rn: "real n = of_int \<lfloor>\<bar>x\<bar>\<rfloor>" by simp
    have n: "0 < n" "real n \<le> \<bar>x\<bar>" "\<bar>x\<bar> < real n + 1"
      using fl by (simp add: n_def, simp add: rn, unfold rn, linarith)
    from bit_length_bounds [OF n(1)] have b: "2 ^ (bit_length n - 1) \<le> n" "n < 2 ^ bit_length n"
      by simp_all
    from n(1) have pos: "0 < bit_length n" by (simp add: bit_length.simps [of n])
    have e: "exponent_of x = int (bit_length n) - 1"
      using True by (simp add: exponent_of_def n_def)
    from pos have "(2 :: real) powi (int (bit_length n) - 1) = 2 ^ (bit_length n - 1)"
      by (simp add: powi_nonneg nat_diff_distrib')
    also from b(1) have "\<dots> \<le> real n"
      using of_nat_mono [of "2 ^ (bit_length n - 1)" n, where ?'a = real] by simp
    finally have lower: "2 powi exponent_of x \<le> \<bar>x\<bar>" using n(2) by (simp add: e)
    from b(2) have "n + 1 \<le> 2 ^ bit_length n" by simp
    then have "real n + 1 \<le> 2 ^ bit_length n"
      using of_nat_mono [of "n + 1" "2 ^ bit_length n", where ?'a = real] by simp
    with n(3) have "\<bar>x\<bar> < 2 ^ bit_length n" by simp
    then have "\<bar>x\<bar> < 2 powi (exponent_of x + 1)" by (simp add: e)
    with lower show ?thesis by simp
  next
    case False
    define a where "a = \<bar>x\<bar>"
    from False assms have a: "0 < a" "a < 1" by (simp_all add: a_def)
    define n where "n = nat (\<lceil>1 / a\<rceil> - 1)"
    from a have "1 < 1 / a" by simp
    then have c: "2 \<le> \<lceil>1 / a\<rceil>" by linarith
    then have "int n = \<lceil>1 / a\<rceil> - 1" unfolding n_def by linarith
    then have "real_of_int (int n) = real_of_int (\<lceil>1 / a\<rceil> - 1)" by (simp only:)
    then have rn: "real n = of_int \<lceil>1 / a\<rceil> - 1" by simp
    have n: "0 < n" "real n < 1 / a" "1 / a \<le> real n + 1"
      using c by (simp add: n_def, unfold rn, linarith, linarith)
    from bit_length_bounds [OF n(1)] have b: "2 ^ (bit_length n - 1) \<le> n" "n < 2 ^ bit_length n"
      by simp_all
    from n(1) have pos: "0 < bit_length n" by (simp add: bit_length.simps [of n])
    have e: "exponent_of x = - int (bit_length n)"
      using False by (simp add: exponent_of_def n_def a_def)
    from b(2) have "n + 1 \<le> 2 ^ bit_length n" by simp
    then have "real n + 1 \<le> 2 ^ bit_length n"
      using of_nat_mono [of "n + 1" "2 ^ bit_length n", where ?'a = real] by simp
    with n(3) have "1 / a \<le> 2 ^ bit_length n" by simp
    with a(1) have "1 \<le> 2 ^ bit_length n * a" by (simp add: field_simps)
    then have "1 / 2 ^ bit_length n \<le> a" by (simp add: field_simps)
    then have lower: "2 powi exponent_of x \<le> \<bar>x\<bar>"
      by (simp add: e a_def power_int_minus field_simps)
    from b(1) have "(2 :: real) ^ (bit_length n - 1) \<le> real n"
      using of_nat_mono [of "2 ^ (bit_length n - 1)" n, where ?'a = real] by simp
    with n(2) have "2 ^ (bit_length n - 1) < 1 / a" by linarith
    with a(1) have "a * 2 ^ (bit_length n - 1) < 1" by (simp add: field_simps)
    then have "a < 1 / 2 ^ (bit_length n - 1)" by (simp add: field_simps)
    moreover from pos have "(2 :: real) powi (- int (bit_length n) + 1) = 1 / 2 ^ (bit_length n - 1)"
      by (cases "bit_length n") (simp_all add: power_int_minus field_simps power_int_add)
    ultimately have "\<bar>x\<bar> < 2 powi (exponent_of x + 1)" by (simp add: e a_def)
    with lower show ?thesis by simp
  qed
  then show "2 powi exponent_of x \<le> \<bar>x\<bar>" and "\<bar>x\<bar> < 2 powi (exponent_of x + 1)" by simp_all
qed

lemma round_to_even_of_int [simp]: "round_to_even (of_int n) = n"
  by (simp add: round_to_even_def)

lemma round_to_even_range:
  "\<lfloor>t\<rfloor> \<le> round_to_even t" "round_to_even t \<le> \<lfloor>t\<rfloor> + 1"
  by (simp_all add: round_to_even_def Let_def)

lemma round_to_even_mono:
  assumes "t \<le> u"
  shows "round_to_even t \<le> round_to_even u"
proof (cases "\<lfloor>t\<rfloor> = \<lfloor>u\<rfloor>")
  case False
  with floor_mono [OF assms] have "\<lfloor>t\<rfloor> + 1 \<le> \<lfloor>u\<rfloor>" by simp
  with round_to_even_range(2) [of t] round_to_even_range(1) [of u] show ?thesis by linarith
next
  case True
  with assms have "t - of_int \<lfloor>t\<rfloor> \<le> u - of_int \<lfloor>t\<rfloor>" by simp
  with True show ?thesis by (simp add: round_to_even_def Let_def)
qed


lemma powi_less_imp_less: "(2 :: real) powi a < 2 powi b \<Longrightarrow> a < b"
  using power_int_increasing [of b a "2 :: real"] by (cases "a < b") simp_all

lemma exponent_of_mono:
  assumes "0 < x" "x \<le> y"
  shows "exponent_of x \<le> exponent_of y"
proof -
  from assms have "x \<noteq> 0" "y \<noteq> 0" by simp_all
  from exponent_of_bounds(1) [OF this(1)] exponent_of_bounds(2) [OF this(2)] assms
  have "2 powi exponent_of x < (2 :: real) powi (exponent_of y + 1)" by simp
  from powi_less_imp_less [OF this] show ?thesis by simp
qed

lemma nearest_pos:
  assumes "0 < x"
  shows "nearest p emin x
         = of_int (round_to_even (x / 2 powi max (exponent_of x - (int p - 1)) emin))
           * 2 powi max (exponent_of x - (int p - 1)) emin"
  using assms by (simp add: nearest_def Let_def)

lemma round_to_even_nonneg: "0 \<le> t \<Longrightarrow> 0 \<le> round_to_even t"
  using round_to_even_mono [of 0 t] round_to_even_of_int [of 0] by simp

lemma nearest_nonneg:
  assumes "0 \<le> x"
  shows "0 \<le> nearest p emin x"
proof (cases "x = 0")
  case True
  then show ?thesis by (simp add: nearest_def)
next
  case False
  with assms have x: "0 < x" by simp
  have "0 \<le> x / 2 powi max (exponent_of x - (int p - 1)) emin" using x by simp
  from round_to_even_nonneg [OF this] show ?thesis
    by (simp add: nearest_pos [OF x])
qed

lemma nearest_mono_pos:
  assumes p: "0 < p" and x: "0 < x" and xy: "x \<le> y"
  shows "nearest p emin x \<le> nearest p emin y"
proof -
  define kx where "kx = exponent_of x"
  define ky where "ky = exponent_of y"
  define ex where "ex = max (kx - (int p - 1)) emin"
  define ey where "ey = max (ky - (int p - 1)) emin"
  from x xy have y: "0 < y" by simp
  have k: "kx \<le> ky" unfolding kx_def ky_def using x xy by (rule exponent_of_mono)
  then have e: "ex \<le> ey" by (simp add: ex_def ey_def)
  have nx: "nearest p emin x = of_int (round_to_even (x / 2 powi ex)) * 2 powi ex"
    unfolding ex_def kx_def by (rule nearest_pos [OF x])
  have ny: "nearest p emin y = of_int (round_to_even (y / 2 powi ey)) * 2 powi ey"
    unfolding ey_def ky_def by (rule nearest_pos [OF y])
  show ?thesis
  proof (cases "ex = ey")
    case True
    have "x / 2 powi ey \<le> y / 2 powi ey" using xy by (intro divide_right_mono) simp_all
    then have "round_to_even (x / 2 powi ey) \<le> round_to_even (y / 2 powi ey)"
      by (rule round_to_even_mono)
    then have "real_of_int (round_to_even (x / 2 powi ey)) * 2 powi ey
               \<le> real_of_int (round_to_even (y / 2 powi ey)) * 2 powi ey"
      by (intro mult_right_mono) simp_all
    then show ?thesis by (simp add: nx ny True)
  next
    case False
    with e have lt: "ex + 1 \<le> ey" by simp
    have "emin \<le> ex" by (simp add: ex_def)
    with lt have ey': "ey = ky - (int p - 1)" by (simp add: ey_def)
    have pw: "0 < (2 :: real) powi n" for n by simp
    from exponent_of_bounds(2) [of x] x have "x < 2 powi (kx + 1)" by (simp add: kx_def)
    also have "(2 :: real) powi (kx + 1) \<le> 2 powi (ex + int p)"
      by (intro power_int_increasing) (simp_all add: ex_def)
    finally have "x < 2 powi (ex + int p)" .
    also have "(2 :: real) powi (ex + int p) = 2 powi ex * 2 ^ p"
      by (simp add: power_int_add)
    finally have "x / 2 powi ex \<le> 2 ^ p" using pw [of ex] by (simp add: field_simps)
    also have "(2 :: real) ^ p = of_int (2 ^ p)" by simp
    finally have "round_to_even (x / 2 powi ex) \<le> round_to_even (of_int (2 ^ p))"
      by (rule round_to_even_mono)
    then have "real_of_int (round_to_even (x / 2 powi ex)) \<le> 2 ^ p"
      by (simp only: round_to_even_of_int) (metis of_int_le_iff of_int_numeral of_int_power)
    then have "nearest p emin x \<le> 2 ^ p * 2 powi ex"
      unfolding nx by (intro mult_right_mono) simp_all
    also have "\<dots> = 2 powi (ex + int p)" by (simp add: power_int_add)
    also have "\<dots> \<le> 2 powi (ey + (int p - 1))"
      using lt by (intro power_int_increasing) simp_all
    also have "\<dots> = 2 ^ (p - 1) * 2 powi ey"
      using p by (simp add: power_int_add powi_nonneg nat_diff_distrib')
    also have "\<dots> \<le> nearest p emin y"
    proof -
      from exponent_of_bounds(1) [of y] y have "2 powi ky \<le> y" by (simp add: ky_def)
      moreover have "(2 :: real) powi ky = 2 powi ey * 2 ^ (p - 1)"
        using p by (simp add: ey' power_int_add [symmetric] powi_nonneg [symmetric]
            nat_diff_distrib' power_int_of_nat [symmetric] del: power_int_of_nat)
      ultimately have "2 ^ (p - 1) \<le> y / 2 powi ey" using pw [of ey] by (simp add: field_simps)
      moreover have "(2 :: real) ^ (p - 1) = of_int (2 ^ (p - 1))" by simp
      ultimately have "round_to_even (of_int (2 ^ (p - 1))) \<le> round_to_even (y / 2 powi ey)"
        by (intro round_to_even_mono) simp
      then have "2 ^ (p - 1) \<le> real_of_int (round_to_even (y / 2 powi ey))"
        by (simp only: round_to_even_of_int) (metis of_int_le_iff of_int_numeral of_int_power)
      then show ?thesis unfolding ny by (intro mult_right_mono) simp_all
    qed
    finally show ?thesis .
  qed
qed

lemma nearest_mono:
  assumes "0 < p" "0 \<le> x" "x \<le> y"
  shows "nearest p emin x \<le> nearest p emin y"
proof (cases "x = 0")
  case True
  with assms nearest_nonneg [of y p emin] show ?thesis by (simp add: nearest_def)
next
  case False
  with assms show ?thesis by (intro nearest_mono_pos) simp_all
qed

lemmas rounding_eval = binary32_def binary64_def fround_def nearest_def round_to_even_def
  exponent_of_def bit_length.simps Let_def



lemma fround_mono:
  assumes "0 < p" "0 \<le> x" "x \<le> y" "fround p emin emax y = Finite Y"
  shows "\<exists>X. fround p emin emax x = Finite X \<and> 0 \<le> X \<and> X \<le> Y"
proof -
  from assms(4) have Y: "Y = nearest p emin y" "\<not> 2 powi emax \<le> \<bar>nearest p emin y\<bar>"
    by (auto simp: fround_def Let_def split: if_splits)
  from assms(1-3) have "nearest p emin x \<le> nearest p emin y" by (rule nearest_mono)
  moreover from assms(2) have "0 \<le> nearest p emin x" by (rule nearest_nonneg)
  ultimately show ?thesis using Y by (auto simp: fround_def Let_def)
qed

lemma binary32_mono:
  assumes "0 \<le> x" "x \<le> y" "binary32 y = Finite Y"
  shows "\<exists>X. binary32 x = Finite X \<and> 0 \<le> X \<and> X \<le> Y"
  using fround_mono [of 24 x y "- 149" 128 Y] assms by (simp add: binary32_def)

lemma binary64_mono:
  assumes "0 \<le> x" "x \<le> y" "binary64 y = Finite Y"
  shows "\<exists>X. binary64 x = Finite X \<and> 0 \<le> X \<and> X \<le> Y"
  using fround_mono [of 53 x y "- 1074" 1024 Y] assms by (simp add: binary64_def)


subsection \<open>The arithmetic of float and double columns\<close>

lemma float_type_simps [simp]:
  "\<not> is_integral float_type" "sub float_type a b = binary32 (a - b)"
  "plus_one float_type x = rounded binary32 (fadd x (Finite 1))"
  "to_float float_type x = x"
  "divide_by_float float_type x f = rounded binary32 (fdiv x f)"
  by (simp_all add: float_type_def)

lemma double_type_simps [simp]:
  "\<not> is_integral double_type" "sub double_type a b = binary64 (a - b)"
  "plus_one double_type x = rounded binary64 (fadd x (Finite 1))"
  "to_float double_type x = rounded binary32 x"
  "divide_by_float double_type x f = rounded binary32 (rounded binary64 (fdiv x f))"
  by (simp_all add: double_type_def)






lemma binary_large:
  "binary32 (2 ^ 127) = Finite (2 ^ 127)" "binary32 (2 ^ 127 + 1) = Finite (2 ^ 127)"
  "binary64 (2 ^ 127) = Finite (2 ^ 127)" "binary64 (2 ^ 127 + 1) = Finite (2 ^ 127)"
  by (simp_all add: rounding_eval)

lemma width_finite:
  assumes "ct = float_type \<or> ct = double_type" "lo \<le> hi" "hi - lo \<le> 2 ^ 127"
  shows "\<exists>W. to_float ct (plus_one ct (sub ct hi lo)) = Finite W"
proof -
  from assms(2) have nonneg: "0 \<le> hi - lo" by simp
  from assms(1) show ?thesis
  proof
    assume ct: "ct = float_type"
    from binary32_mono [OF nonneg assms(3) binary_large(1)] obtain X
      where X: "binary32 (hi - lo) = Finite X" "0 \<le> X" "X \<le> 2 ^ 127" by blast
    from X(2,3) have "0 \<le> X + 1" "X + 1 \<le> 2 ^ 127 + 1" by simp_all
    from binary32_mono [OF this binary_large(2)] obtain W
      where "binary32 (X + 1) = Finite W" by blast
    with X(1) show ?thesis by (simp add: ct)
  next
    assume ct: "ct = double_type"
    from binary64_mono [OF nonneg assms(3) binary_large(3)] obtain X
      where X: "binary64 (hi - lo) = Finite X" "0 \<le> X" "X \<le> 2 ^ 127" by blast
    from X(2,3) have "0 \<le> X + 1" "X + 1 \<le> 2 ^ 127 + 1" by simp_all
    from binary64_mono [OF this binary_large(4)] obtain W64
      where W64: "binary64 (X + 1) = Finite W64" "0 \<le> W64" "W64 \<le> 2 ^ 127" by blast
    from binary32_mono [OF W64(2,3) binary_large(1)] obtain W
      where "binary32 W64 = Finite W" by blast
    with X(1) W64(1) show ?thesis by (simp add: ct)
  qed
qed


section \<open>Bounds of the estimates\<close>


lemma exact_int64:
  "fits 64 (a - b) \<Longrightarrow> fits 64 (a - b + 1) \<Longrightarrow> exact int64_type real_of_int a b"
  by (simp add: exact_def wrap_fits)










lemma fmin_Finite [simp]: "fmin (Finite a) (Finite b) = Finite (min a b)"
  by (simp add: fmin_def min_def)

section \<open>Bounds of the estimates on float and double columns\<close>



lemma less_than_equals_literal:
  "less_than_equals_case ct scan v (ColumnStatistics cid d lo hi)
   = Inr (if v < lo \<or> (scan = OpLessThan \<and> v \<le> lo) then (Finite 0, None)
          else if v \<ge> hi then (Finite 1, None)
          else (divide_by_float ct (plus_one ct (sub ct v lo))
                  (to_float ct (plus_one ct (sub ct hi lo))),
                Some (ColumnStatistics cid
                        (fmul (divide_by_float ct (plus_one ct (sub ct v lo))
                                 (to_float ct (plus_one ct (sub ct hi lo)))) d)
                        lo v)),
          ColumnStatistics cid d lo hi)"
  by (simp add: less_than_equals_case_def ColumnStatistics_def cached_accessors Let_def)



section \<open>Monotonicity of \<open><\<close>\<close>

lemmas literal_eval = ColumnStatistics_def cached_accessors wrap_fits fits_def

text \<open>
  C9. The claim is that on an integer column the selectivity of \<open>< v1\<close> is at most that of
  \<open>< v2\<close> whenever \<open>v1 \<le> v2\<close>, for every statistics object. The constructor of lines 25
  to 28 accepts any minimum and maximum; for the statistics \<open>(d = 5, min = 10, max = 0)\<close>
  the width \<open>max - min + 1\<close> is \<open>-9\<close>, the selectivity of \<open>< 5\<close> is 0 and that of \<open>< 20\<close> is
  \<open>-10/9\<close>.
\<close>

theorem less_than_not_monotone:
  "(5 :: int) \<le> 20
   \<and> predicate_selectivity int32_type OpLessThan 5 None (ColumnStatistics 0 (Finite 5) 10 0)
     = Inr ((Finite 0, None), ColumnStatistics 0 (Finite 5) 10 0)
   \<and> predicate_selectivity int32_type OpLessThan 20 None (ColumnStatistics 0 (Finite 5) 10 0)
     = Inr ((Finite (- (10 / 9)), Some (ColumnStatistics 0 (Finite (- (50 / 9))) 10 19)),
            ColumnStatistics 0 (Finite 5) 10 0)
   \<and> \<not> fle (Finite 0) (Finite (- (10 / 9)))"
  by (simp add: int32_type_def literal_eval)

text \<open>
  C9, amended. For an \<open>int32_t\<close> or \<open>int64_t\<close> column with \<open>min \<le> max + 1\<close> whose width
  \<open>max - min + 1\<close> and difference \<open>v2 - min\<close> are below \<open>2 ^ 31\<close> (\<open>2 ^ 63\<close>), so that the
  subtractions of the estimate do not overflow, \<open>v1 \<le> v2\<close> implies that the selectivity
  of \<open>< v1\<close> is at most that of \<open>< v2\<close> (in the order of floats; with \<open>min = max + 1\<close> the
  width is 0 and both may be \<open>+\<infinity>\<close>).
\<close>

theorem less_than_monotone:
  assumes stats: "has_statistics this lo hi d"
    and ct: "(ct, bits) = (int32_type, 32) \<or> (ct, bits) = (int64_type, 64)"
    and width: "lo \<le> hi + 1" "hi - lo + 1 < 2 ^ (bits - 1)"
    and range: "v2 - lo < 2 ^ (bits - 1)"
    and le: "v1 \<le> v2"
  shows "\<exists>s1 r1 t1 s2 r2 t2.
           predicate_selectivity ct OpLessThan v1 w1 this = Inr ((s1, r1), t1)
           \<and> predicate_selectivity ct OpLessThan v2 w2 this = Inr ((s2, r2), t2)
           \<and> fle s1 s2"
proof -
  let ?w = "Finite (real_of_int (hi - lo + 1))"
  let ?sel = "\<lambda>v. if v \<le> lo then Finite 0 else fdiv (Finite (real_of_int (v - lo))) ?w"
  from ct have integral: "is_integral ct" by auto
  have pos: "0 < (2 :: int) ^ (bits - 1)" by simp
  from width pos have w: "fits bits (hi - lo)" "fits bits (hi - lo + 1)"
    by (simp_all add: fits_def)
  have diff: "fits bits (v - lo)" if "\<not> v \<le> lo" "v \<le> v2" for v
    using that range pos by (simp add: fits_def)
  have ops: "divide_by_float ct (sub ct v lo) f = fdiv (Finite (real_of_int (v - lo))) f"
    "to_float ct (plus_one ct (sub ct hi lo)) = ?w" if "\<not> v \<le> lo" "v \<le> v2" for v f
    using ct w diff [OF that] by (auto simp: wrap_fits)
  have run: "\<exists>r t. predicate_selectivity ct OpLessThan v w' this = Inr ((?sel v, r), t)"
    if "v \<le> v2" for v w'
  proof (cases "v \<le> lo")
    case True
    with less_than_integral [OF stats integral, of v w'] show ?thesis by auto
  next
    case False
    with less_than_integral [OF stats integral, of v w'] ops [OF False that]
    show ?thesis by auto
  qed
  from run [OF le, of w1] obtain r1 t1
    where 1: "predicate_selectivity ct OpLessThan v1 w1 this = Inr ((?sel v1, r1), t1)" by blast
  from run [of v2 w2] obtain r2 t2
    where 2: "predicate_selectivity ct OpLessThan v2 w2 this = Inr ((?sel v2, r2), t2)" by auto
  from width(1) have wn: "0 \<le> real_of_int (hi - lo + 1)" by simp
  have "fle (?sel v1) (?sel v2)"
  proof (cases "real_of_int (hi - lo + 1) = 0")
    case True
    with le show ?thesis by auto
  next
    case False
    with wn have "0 < real_of_int (hi - lo + 1)" by simp
    with le show ?thesis by (auto simp: divide_right_mono)
  qed
  with 1 2 show ?thesis by blast
qed

theorem less_than_monotone_witness:
  "\<exists>s1 r1 t1 s2 r2 t2.
     predicate_selectivity int32_type OpLessThan 12 None (ColumnStatistics 0 (Finite 5) 10 20)
       = Inr ((s1, r1), t1)
     \<and> predicate_selectivity int32_type OpLessThan 17 None (ColumnStatistics 0 (Finite 5) 10 20)
       = Inr ((s2, r2), t2)
     \<and> fle s1 s2"
proof -
  have "has_statistics (ColumnStatistics 0 (Finite 5) (10 :: int) 20) 10 20 (Finite 5)"
    by simp
  from less_than_monotone [OF this, of int32_type 32 17 12 None None]
  show ?thesis by simp
qed

section \<open>Selectivities and the unit interval\<close>


text \<open>
  On a \<open>double\<close> column the width is narrowed to \<open>float\<close> before the division: for the
  statistics \<open>(min 0, max 2 ^ 130)\<close> the width is \<open>+\<infinity>\<close> as a \<open>float\<close>, and \<open>\<le> 2 ^ 129\<close> has
  selectivity 0.
\<close>

lemma double_width_narrowed:
  "predicate_selectivity double_type OpLessThanEquals (2 ^ 129) None
     (ColumnStatistics 0 (Finite 5) 0 (2 ^ 130))
   = Inr ((Finite 0, Some (ColumnStatistics 0 (Finite 0) 0 (2 ^ 129))),
          ColumnStatistics 0 (Finite 5) 0 (2 ^ 130))"
proof -
  have "binary64 (2 ^ 129 - 0) = Finite (2 ^ 129)" "binary64 (2 ^ 129 + 1) = Finite (2 ^ 129)"
    "binary64 (2 ^ 130 - 0) = Finite (2 ^ 130)" "binary64 (2 ^ 130 + 1) = Finite (2 ^ 130)"
    "binary32 (2 ^ 130) = PosInf" "binary64 0 = Finite 0" "binary32 0 = Finite 0"
    by (simp_all add: rounding_eval)
  then show ?thesis by (simp add: less_than_equals_literal)
qed



end
